theory Spec2Isabelle
  imports Main
begin

section \<open>Data model of \<open>gdrive_transfer.py\<close>\<close>

text \<open>
  The Drive service is an external collaborator. The program talks to it through two
  calls only: \<open>service.files().list(...).execute()\<close> and
  \<open>service.permissions().create(...).execute()\<close>. Either call returns a value or
  raises \<open>HttpError\<close>; a raise is the left injection of a sum.
\<close>

datatype HttpError = HttpError string

text \<open>
  An entry of \<open>response["files"]\<close>. Every listing asks for
  \<open>fields="nextPageToken, files(id, name, mimeType)"\<close>, so an item is a record of
  these three strings.
\<close>

record item =
  item_id :: string
  item_name :: string
  mimeType :: string

text \<open>
  A listing response: \<open>response.get("files", [])\<close> (an absent key is the empty list)
  and \<open>response.get("nextPageToken")\<close> (an absent key is \<open>None\<close>).
\<close>

record response =
  resp_files :: "item list"
  nextPageToken :: "string option"

text \<open>The keyword arguments of \<open>files().list\<close>.\<close>

record list_request =
  list_q :: string
  list_supportsAllDrives :: bool
  list_includeItemsFromAllDrives :: bool
  list_pageSize :: nat
  list_pageToken :: "string option"
  list_fields :: string

text \<open>The keyword arguments of \<open>permissions().create\<close>, the body dictionary flattened.\<close>

record permission_request =
  fileId :: string
  body_type :: string
  body_role :: string
  body_emailAddress :: string
  transferOwnership :: bool
  supportsAllDrives :: bool
  sendNotificationEmail :: bool

record service =
  files_list :: "list_request \<Rightarrow> HttpError + response"
  permissions_create :: "permission_request \<Rightarrow> HttpError + unit"

text \<open>Python's \<open>not page_token\<close>: true of \<open>None\<close> and of the empty string.\<close>

definition not_token :: "string option \<Rightarrow> bool" where
  "not_token page_token = (case page_token of None \<Rightarrow> True | Some t \<Rightarrow> t = [])"

definition folder_mime :: string where
  "folder_mime = ''application/vnd.google-apps.folder''"

section \<open>Unscoped listing: \<open>list_owned_files\<close>\<close>

definition owned_query :: "string \<Rightarrow> string" where
  "owned_query source_email = [CHR 0x27] @ source_email @ [CHR 0x27] @ '' in owners and trashed = false''"

definition owned_request :: "string \<Rightarrow> string option \<Rightarrow> list_request" where
  "owned_request query page_token =
     \<lparr>list_q = query, list_supportsAllDrives = True, list_includeItemsFromAllDrives = True,
      list_pageSize = 1000, list_pageToken = page_token,
      list_fields = ''nextPageToken, files(id, name, mimeType)''\<rparr>"

text \<open>
  The \<open>while True\<close> loop of \<open>list_owned_files\<close>. The loop has no bound of its own: it
  runs for as long as the service hands out continuation tokens, so it is a partial
  function, \<open>None\<close> standing for a run that never returns. The value of a run that
  returns is the requests made, in order, and either the raised error or the list built.
\<close>

partial_function (option) list_owned_files_loop ::
  "service \<Rightarrow> string \<Rightarrow> string option \<Rightarrow> item list \<Rightarrow> list_request list
    \<Rightarrow> (list_request list \<times> (HttpError + item list)) option" where
  "list_owned_files_loop service query page_token files calls =
     (case files_list service (owned_request query page_token) of
        Inl error \<Rightarrow> Some (calls @ [owned_request query page_token], Inl error)
      | Inr response \<Rightarrow>
          if not_token (nextPageToken response)
          then Some (calls @ [owned_request query page_token], Inr (files @ resp_files response))
          else list_owned_files_loop service query (nextPageToken response)
                 (files @ resp_files response) (calls @ [owned_request query page_token]))"

declare list_owned_files_loop.simps [code]

definition list_owned_files ::
  "service \<Rightarrow> string \<Rightarrow> (list_request list \<times> (HttpError + item list)) option" where
  "list_owned_files service source_email =
     list_owned_files_loop service (owned_query source_email) None [] []"

section \<open>Scoped recursive listing: \<open>list_owned_in_folders\<close>\<close>

definition folder_query :: "string \<Rightarrow> string \<Rightarrow> string" where
  "folder_query folder_id source_email =
     [CHR 0x27] @ folder_id @ [CHR 0x27] @ '' in parents and trashed = false and ''
       @ [CHR 0x27] @ source_email @ [CHR 0x27] @ '' in owners''"

definition folder_request :: "string \<Rightarrow> string option \<Rightarrow> list_request" where
  "folder_request query page_token =
     \<lparr>list_q = query, list_supportsAllDrives = True, list_includeItemsFromAllDrives = True,
      list_pageSize = 200, list_pageToken = page_token,
      list_fields = ''nextPageToken, files(id, name, mimeType)''\<rparr>"

text \<open>The \<open>for item in response.get("files", [])\<close> loop over one page.\<close>

fun folder_items_loop :: "item list \<Rightarrow> item list \<Rightarrow> string list \<Rightarrow> item list \<times> string list" where
  "folder_items_loop [] files queue = (files, queue)"
| "folder_items_loop (item # rest) files queue =
     (if mimeType item = folder_mime
      then folder_items_loop rest (files @ [item]) (queue @ [item_id item])
      else folder_items_loop rest (files @ [item]) queue)"

text \<open>The inner \<open>while True\<close> loop: the pages of one folder's query.\<close>

partial_function (option) folder_pages_loop ::
  "service \<Rightarrow> string \<Rightarrow> string option \<Rightarrow> item list \<Rightarrow> string list \<Rightarrow> list_request list
    \<Rightarrow> (list_request list \<times> (HttpError + item list \<times> string list)) option" where
  "folder_pages_loop service query page_token files queue calls =
     (case files_list service (folder_request query page_token) of
        Inl error \<Rightarrow> Some (calls @ [folder_request query page_token], Inl error)
      | Inr response \<Rightarrow>
          (case folder_items_loop (resp_files response) files queue of
             (files', queue') \<Rightarrow>
               if not_token (nextPageToken response)
               then Some (calls @ [folder_request query page_token], Inr (files', queue'))
               else folder_pages_loop service query (nextPageToken response) files' queue'
                      (calls @ [folder_request query page_token])))"

declare folder_pages_loop.simps [code]

text \<open>
  The outer \<open>while queue\<close> loop. \<open>queue.popleft()\<close> takes the head; an error raised
  by a page request leaves the loop at once, and the lists built so far are dropped.
\<close>

partial_function (option) folders_loop ::
  "service \<Rightarrow> string \<Rightarrow> string set \<Rightarrow> string list \<Rightarrow> item list \<Rightarrow> list_request list
    \<Rightarrow> (list_request list \<times> (HttpError + item list)) option" where
  "folders_loop service source_email seen queue files calls =
     (case queue of
        [] \<Rightarrow> Some (calls, Inr files)
      | folder_id # queue' \<Rightarrow>
          if folder_id \<in> seen
          then folders_loop service source_email seen queue' files calls
          else
            (case folder_pages_loop service (folder_query folder_id source_email) None
                    files queue' calls of
               None \<Rightarrow> None
             | Some (calls', Inl error) \<Rightarrow> Some (calls', Inl error)
             | Some (calls', Inr (files', queue'')) \<Rightarrow>
                 folders_loop service source_email (insert folder_id seen) queue'' files' calls'))"

declare folders_loop.simps [code]

definition list_owned_in_folders ::
  "service \<Rightarrow> string \<Rightarrow> string list \<Rightarrow> (list_request list \<times> (HttpError + item list)) option" where
  "list_owned_in_folders service source_email folder_ids =
     folders_loop service source_email {} folder_ids [] []"

section \<open>Transfer: \<open>transfer_file\<close> and \<open>main\<close>\<close>

definition permission :: "string \<Rightarrow> string \<Rightarrow> permission_request" where
  "permission file_id target_email =
     \<lparr>fileId = file_id, body_type = ''user'', body_role = ''owner'',
      body_emailAddress = target_email, transferOwnership = True,
      supportsAllDrives = True, sendNotificationEmail = False\<rparr>"

definition transfer_file :: "service \<Rightarrow> string \<Rightarrow> string \<Rightarrow> HttpError + unit" where
  "transfer_file service file_id target_email =
     permissions_create service (permission file_id target_email)"

text \<open>The namespace returned by \<open>parse_args\<close>.\<close>

record args =
  args_client_secret :: string
  args_token :: string
  args_source_email :: string
  args_target_email :: string
  args_folder_ids :: "string list option"
  args_dry_run :: bool

text \<open>
  What \<open>main\<close> prints, one constructor for each \<open>print\<close> of the source, with the
  values its format string interpolates. \<open>Failed_to_list\<close> and
  \<open>Failed_to_transfer\<close> go to standard error, the others to standard output.
\<close>

datatype message =
    Failed_to_list HttpError
  | No_files
  | Found nat
  | Would_transfer string string
  | Transferred string string
  | Failed_to_transfer string string HttpError

text \<open>
  The observable behaviour of one run of \<open>main\<close>: its return value (the process exit
  code), the lines printed, and the calls made on the service, in order.
\<close>

record run =
  exit_code :: int
  printed :: "message list"
  list_calls :: "list_request list"
  permission_calls :: "permission_request list"

text \<open>The \<open>for item in files\<close> loop of \<open>main\<close>.\<close>

fun transfer_loop ::
  "service \<Rightarrow> string \<Rightarrow> bool \<Rightarrow> item list \<Rightarrow> message list \<Rightarrow> permission_request list
    \<Rightarrow> message list \<times> permission_request list" where
  "transfer_loop service target_email dry_run [] out pcalls = (out, pcalls)"
| "transfer_loop service target_email dry_run (item # rest) out pcalls =
     (if dry_run
      then transfer_loop service target_email dry_run rest
             (out @ [Would_transfer (item_name item) (item_id item)]) pcalls
      else
        (case transfer_file service (item_id item) target_email of
           Inr _ \<Rightarrow>
             transfer_loop service target_email dry_run rest
               (out @ [Transferred (item_name item) (item_id item)])
               (pcalls @ [permission (item_id item) target_email])
         | Inl error \<Rightarrow>
             transfer_loop service target_email dry_run rest
               (out @ [Failed_to_transfer (item_name item) (item_id item) error])
               (pcalls @ [permission (item_id item) target_email])))"

text \<open>
  The \<open>try\<close> block of \<open>main\<close>: \<open>if args.folder_ids\<close> is false of \<open>None\<close> and of the
  empty list.
\<close>

definition main_listing ::
  "service \<Rightarrow> args \<Rightarrow> (list_request list \<times> (HttpError + item list)) option" where
  "main_listing service a =
     (case args_folder_ids a of
        None \<Rightarrow> list_owned_files service (args_source_email a)
      | Some [] \<Rightarrow> list_owned_files service (args_source_email a)
      | Some (f # fs) \<Rightarrow> list_owned_in_folders service (args_source_email a) (f # fs))"

text \<open>
  \<open>main\<close>, after \<open>parse_args\<close>, \<open>load_credentials\<close> and \<open>build_service\<close> have
  produced the arguments and the service. It returns only if the listing does.
\<close>

definition main :: "service \<Rightarrow> args \<Rightarrow> run option" where
  "main service a =
     (case main_listing service a of
        None \<Rightarrow> None
      | Some (calls, Inl error) \<Rightarrow>
          Some \<lparr>exit_code = 1, printed = [Failed_to_list error],
                list_calls = calls, permission_calls = []\<rparr>
      | Some (calls, Inr files) \<Rightarrow>
          if files = []
          then Some \<lparr>exit_code = 0, printed = [No_files],
                     list_calls = calls, permission_calls = []\<rparr>
          else
            (case transfer_loop service (args_target_email a) (args_dry_run a) files
                    [Found (length files)] [] of
               (out, pcalls) \<Rightarrow>
                 Some \<lparr>exit_code = 0, printed = out,
                       list_calls = calls, permission_calls = pcalls\<rparr>))"

section \<open>What the service answers\<close>

text \<open>
  The ids that one listing puts on the queue: those of its items whose \<open>mimeType\<close> is
  the folder type, in listing order.
\<close>

definition sub_folders :: "item list \<Rightarrow> string list" where
  "sub_folders its = map item_id (filter (\<lambda>item. mimeType item = folder_mime) its)"

text \<open>
  The pages the service hands out for one query, followed from the continuation token
  \<open>tok\<close>: the requests this takes, and either the error of the first failing request or
  the items of all pages in order. The relation speaks of the service alone: \<open>mk\<close> builds
  the request of a page from its token. It holds of no request list when the service never
  stops handing out tokens.
\<close>

inductive paging ::
  "service \<Rightarrow> (string option \<Rightarrow> list_request) \<Rightarrow> string option \<Rightarrow> list_request list
    \<Rightarrow> HttpError + item list \<Rightarrow> bool"
  for service :: service and mk :: "string option \<Rightarrow> list_request" where
  paging_error:
    "files_list service (mk tok) = Inl err \<Longrightarrow> paging service mk tok [mk tok] (Inl err)"
| paging_last:
    "files_list service (mk tok) = Inr r \<Longrightarrow> not_token (nextPageToken r)
      \<Longrightarrow> paging service mk tok [mk tok] (Inr (resp_files r))"
| paging_next_error:
    "files_list service (mk tok) = Inr r \<Longrightarrow> \<not> not_token (nextPageToken r)
      \<Longrightarrow> paging service mk (nextPageToken r) reqs (Inl err)
      \<Longrightarrow> paging service mk tok (mk tok # reqs) (Inl err)"
| paging_next:
    "files_list service (mk tok) = Inr r \<Longrightarrow> \<not> not_token (nextPageToken r)
      \<Longrightarrow> paging service mk (nextPageToken r) reqs (Inr its)
      \<Longrightarrow> paging service mk tok (mk tok # reqs) (Inr (resp_files r @ its))"

text \<open>
  The items a single request returns (none when it fails).
\<close>

definition returned :: "service \<Rightarrow> list_request \<Rightarrow> item list" where
  "returned service req =
     (case files_list service req of Inl err \<Rightarrow> [] | Inr r \<Rightarrow> resp_files r)"

text \<open>
  The complete listing of one folder: the items the service returns for the folder's
  query, all pages followed, none of them failing. By the query these are the non-trashed
  items owned by the source account with that folder as a parent.
\<close>

definition children :: "service \<Rightarrow> string \<Rightarrow> string \<Rightarrow> item list \<Rightarrow> bool" where
  "children service source_email folder_id its \<longleftrightarrow>
     (\<exists>reqs. paging service (folder_request (folder_query folder_id source_email)) None reqs (Inr its))"

text \<open>
  The folder ids the traversal can come to: the given ones, and the folder items listed
  under a folder it can come to.
\<close>

inductive_set reachable :: "service \<Rightarrow> string \<Rightarrow> string list \<Rightarrow> string set"
  for service :: service and source_email :: string and folder_ids :: "string list" where
  root: "f \<in> set folder_ids \<Longrightarrow> f \<in> reachable service source_email folder_ids"
| child: "f \<in> reachable service source_email folder_ids
    \<Longrightarrow> children service source_email f its
    \<Longrightarrow> g \<in> set (sub_folders its)
    \<Longrightarrow> g \<in> reachable service source_email folder_ids"

text \<open>
  The edges of the folder graph the service shows to the source account.
\<close>

definition folder_edges :: "service \<Rightarrow> string \<Rightarrow> (string \<times> string) set" where
  "folder_edges service source_email =
     {(f, g). \<exists>its. children service source_email f its \<and> g \<in> set (sub_folders its)}"

text \<open>
  A finite remote drive, as far as the traversal can tell: every folder of the set \<open>U\<close>
  has a listing that ends (by a last page or by an error), and a complete listing names sub-folders
  in \<open>U\<close> only.
\<close>

definition listing_closed :: "service \<Rightarrow> string \<Rightarrow> string set \<Rightarrow> bool" where
  "listing_closed service source_email U \<longleftrightarrow>
     (\<forall>f\<in>U. \<exists>reqs out.
        paging service (folder_request (folder_query f source_email)) None reqs out \<and>
        (\<forall>its. out = Inr its \<longrightarrow> set (sub_folders its) \<subseteq> U))"

text \<open>
  The same drive with no failing listing: every folder of \<open>U\<close> has a complete listing,
  and it names sub-folders in \<open>U\<close> only.
\<close>

definition listing_complete :: "service \<Rightarrow> string \<Rightarrow> string set \<Rightarrow> bool" where
  "listing_complete service source_email U \<longleftrightarrow>
     (\<forall>f\<in>U. \<exists>its. children service source_email f its \<and> set (sub_folders its) \<subseteq> U)"

text \<open>
  The expansion of one folder as the service sees it: the requests of the folder's query,
  first page first, none of them failing, and the items they return.
\<close>

definition folder_run ::
  "service \<Rightarrow> string \<Rightarrow> string \<Rightarrow> list_request list \<times> item list \<Rightarrow> bool" where
  "folder_run service source_email folder_id run \<longleftrightarrow>
     paging service (folder_request (folder_query folder_id source_email)) None
       (fst run) (Inr (snd run))"

text \<open>
  The listing that \<open>main\<close> asks for ends: the scoped one on a finite drive, the unscoped
  one when the pages of its single query end.
\<close>

definition listing_ends :: "service \<Rightarrow> args \<Rightarrow> bool" where
  "listing_ends service a \<longleftrightarrow>
     (case args_folder_ids a of
        Some (f # fs) \<Rightarrow>
          (\<exists>U. finite U \<and> set (f # fs) \<subseteq> U \<and> listing_closed service (args_source_email a) U)
      | _ \<Rightarrow>
          (\<exists>reqs out. paging service (owned_request (owned_query (args_source_email a))) None reqs out))"

text \<open>
  The line printed for one item of a real run.
\<close>

definition outcome :: "service \<Rightarrow> string \<Rightarrow> item \<Rightarrow> message" where
  "outcome service target_email item =
     (case transfer_file service (item_id item) target_email of
        Inl err \<Rightarrow> Failed_to_transfer (item_name item) (item_id item) err
      | Inr u \<Rightarrow> Transferred (item_name item) (item_id item))"

section \<open>Example services\<close>

text \<open>
  Small remote drives, used to evaluate the functions on concrete inputs.
\<close>

definition src :: string where "src = ''source@example.org''"

definition tgt :: string where "tgt = ''target@example.org''"

definition folder_a :: item where
  "folder_a = \<lparr>item_id = ''a'', item_name = ''A'', mimeType = folder_mime\<rparr>"

definition folder_b :: item where
  "folder_b = \<lparr>item_id = ''b'', item_name = ''B'', mimeType = folder_mime\<rparr>"

definition file_x :: item where
  "file_x = \<lparr>item_id = ''x'', item_name = ''X'', mimeType = ''text/plain''\<rparr>"

definition folder_c1 :: item where
  "folder_c1 = \<lparr>item_id = ''c1'', item_name = ''C1'', mimeType = folder_mime\<rparr>"

definition folder_c2 :: item where
  "folder_c2 = \<lparr>item_id = ''c2'', item_name = ''C2'', mimeType = folder_mime\<rparr>"

definition item_A :: item where
  "item_A = \<lparr>item_id = ''a'', item_name = ''A'', mimeType = ''text/plain''\<rparr>"

definition item_B :: item where
  "item_B = \<lparr>item_id = ''b'', item_name = ''B'', mimeType = ''text/plain''\<rparr>"

definition item_C :: item where
  "item_C = \<lparr>item_id = ''c'', item_name = ''C'', mimeType = folder_mime\<rparr>"

definition page :: "item list \<Rightarrow> string option \<Rightarrow> HttpError + response" where
  "page its tok = Inr \<lparr>resp_files = its, nextPageToken = tok\<rparr>"

text \<open>
  Two folders \<open>a\<close> and \<open>b\<close> that both list the file \<open>x\<close>; no folder lists a folder.
\<close>

definition shared_service :: service where
  "shared_service =
     \<lparr>files_list = (\<lambda>req.
        if list_q req = folder_query ''a'' src \<or> list_q req = folder_query ''b'' src
        then page [file_x] None else page [] None),
      permissions_create = (\<lambda>req. Inr ())\<rparr>"

text \<open>
  A folder \<open>r\<close> with the sub-folders \<open>a\<close> and \<open>b\<close>, which both list the file \<open>x\<close>;
  the grant on \<open>x\<close> is refused.
\<close>

definition diamond_service :: service where
  "diamond_service =
     \<lparr>files_list = (\<lambda>req.
        if list_q req = folder_query ''r'' src then page [folder_a, folder_b] None
        else if list_q req = folder_query ''a'' src \<or> list_q req = folder_query ''b'' src
        then page [file_x] None else page [] None),
      permissions_create = (\<lambda>req.
        if fileId req = ''x'' then Inl (HttpError ''forbidden'') else Inr ())\<rparr>"

definition diamond_args :: args where
  "diamond_args =
     \<lparr>args_client_secret = ''client_secret.json'', args_token = ''token.json'',
      args_source_email = src, args_target_email = tgt,
      args_folder_ids = Some [''r''], args_dry_run = False\<rparr>"

text \<open>
  A folder \<open>c1\<close> that lists itself and \<open>c2\<close>, and \<open>c2\<close> lists \<open>c1\<close> again.
\<close>

definition cyclic_service :: service where
  "cyclic_service =
     \<lparr>files_list = (\<lambda>req.
        if list_q req = folder_query ''c1'' src then page [folder_c1, folder_c2] None
        else if list_q req = folder_query ''c2'' src then page [folder_c1] None
        else page [] None),
      permissions_create = (\<lambda>req. Inr ())\<rparr>"

text \<open>
  The second page of the listing of \<open>r\<close> fails, after a first page that succeeded.
\<close>

definition failing_service :: service where
  "failing_service =
     \<lparr>files_list = (\<lambda>req.
        if list_q req = folder_query ''r'' src
        then (if list_pageToken req = None then page [folder_a] (Some ''p2'')
              else Inl (HttpError ''backendError''))
        else page [file_x] None),
      permissions_create = (\<lambda>req. Inr ())\<rparr>"

definition failing_args :: args where
  "failing_args =
     \<lparr>args_client_secret = ''client_secret.json'', args_token = ''token.json'',
      args_source_email = src, args_target_email = tgt,
      args_folder_ids = Some [''r''], args_dry_run = False\<rparr>"

text \<open>
  Every listing has two pages.
\<close>

definition paged_service :: service where
  "paged_service =
     \<lparr>files_list = (\<lambda>req.
        if list_pageToken req = None then page [folder_a, file_x] (Some ''p2'')
        else page [folder_b] None),
      permissions_create = (\<lambda>req. Inr ())\<rparr>"

text \<open>
  Three items owned by the source; the grant on \<open>b\<close> is refused.
\<close>

definition abc_service :: service where
  "abc_service =
     \<lparr>files_list = (\<lambda>req. page [item_A, item_B, item_C] None),
      permissions_create = (\<lambda>req.
        if fileId req = ''b'' then Inl (HttpError ''forbidden'') else Inr ())\<rparr>"

definition abc_args :: args where
  "abc_args =
     \<lparr>args_client_secret = ''client_secret.json'', args_token = ''token.json'',
      args_source_email = src, args_target_email = tgt,
      args_folder_ids = None, args_dry_run = False\<rparr>"

definition dry_args :: args where
  "dry_args = abc_args\<lparr>args_dry_run := True\<rparr>"

text \<open>
  A drive on which nothing matches.
\<close>

definition empty_service :: service where
  "empty_service =
     \<lparr>files_list = (\<lambda>req. page [] None), permissions_create = (\<lambda>req. Inr ())\<rparr>"

section \<open>The page loops\<close>

lemma folder_items_loop_append:
  "folder_items_loop its files queue = (files @ its, queue @ sub_folders its)"
  by (induction its arbitrary: files queue) (simp_all add: sub_folders_def)

lemma sub_folders_append: "sub_folders (xs @ ys) = sub_folders xs @ sub_folders ys"
  by (simp add: sub_folders_def)

text \<open>
  A page loop returns exactly when the pages end, and then with the requests and items of
  \<open>paging\<close> appended to the lists it started from.
\<close>

lemma folder_pages_loop_paging:
  assumes "paging service (folder_request query) tok reqs out"
  shows "folder_pages_loop service query tok files queue calls =
           Some (calls @ reqs,
                 case out of Inl err \<Rightarrow> Inl err
                 | Inr its \<Rightarrow> Inr (files @ its, queue @ sub_folders its))"
  using assms
proof (induction arbitrary: files queue calls rule: paging.induct)
  case (paging_error tok err)
  then show ?case by (subst folder_pages_loop.simps) simp
next
  case (paging_last tok r)
  then show ?case
    by (subst folder_pages_loop.simps) (simp add: folder_items_loop_append)
next
  case (paging_next_error tok r reqs err)
  then show ?case
    by (subst folder_pages_loop.simps) (simp add: folder_items_loop_append)
next
  case (paging_next tok r reqs its)
  then show ?case
    by (subst folder_pages_loop.simps) (simp add: folder_items_loop_append sub_folders_append)
qed

lemma folder_pages_loop_Some:
  assumes "folder_pages_loop service query tok files queue calls = Some y"
  shows "\<exists>reqs out. paging service (folder_request query) tok reqs out \<and>
           y = (calls @ reqs,
                case out of Inl err \<Rightarrow> Inl err
                | Inr its \<Rightarrow> Inr (files @ its, queue @ sub_folders its))"
  using assms
proof (induction service query tok files queue calls y rule: folder_pages_loop.raw_induct [rotated 1, consumes 1, case_names step])
  case (step loop service query tok files queue calls y)
  show ?case
  proof (cases "files_list service (folder_request query tok)")
    case (Inl err)
    with step(2) have "y = (calls @ [folder_request query tok], Inl err)" by simp
    moreover have "paging service (folder_request query) tok [folder_request query tok] (Inl err)"
      using Inl by (rule paging_error)
    ultimately show ?thesis by force
  next
    case (Inr r)
    show ?thesis
    proof (cases "not_token (nextPageToken r)")
      case True
      with step(2) Inr have "y = (calls @ [folder_request query tok],
          Inr (files @ resp_files r, queue @ sub_folders (resp_files r)))"
        by (simp add: folder_items_loop_append)
      moreover have "paging service (folder_request query) tok [folder_request query tok]
          (Inr (resp_files r))"
        using Inr True by (rule paging_last)
      ultimately show ?thesis by force
    next
      case False
      with step(2) Inr have "loop service query (nextPageToken r) (files @ resp_files r)
          (queue @ sub_folders (resp_files r)) (calls @ [folder_request query tok]) = Some y"
        by (simp add: folder_items_loop_append)
      from step(1) [OF this] obtain reqs out where
        p: "paging service (folder_request query) (nextPageToken r) reqs out" and
        y: "y = ((calls @ [folder_request query tok]) @ reqs,
                case out of Inl err \<Rightarrow> Inl err
                | Inr its \<Rightarrow> Inr ((files @ resp_files r) @ its,
                    (queue @ sub_folders (resp_files r)) @ sub_folders its))"
        by blast
      show ?thesis
      proof (cases out)
        case (Inl err)
        with p have "paging service (folder_request query) tok (folder_request query tok # reqs) (Inl err)"
          using Inr False by (auto intro: paging_next_error)
        with y Inl show ?thesis by force
      next
        case (Inr its)
        with p have "paging service (folder_request query) tok (folder_request query tok # reqs)
            (Inr (resp_files r @ its))"
          using \<open>files_list service (folder_request query tok) = Inr r\<close> False
          by (auto intro: paging_next)
        with y Inr show ?thesis by (force simp: sub_folders_append)
      qed
    qed
  qed
qed

lemma list_owned_files_loop_paging:
  assumes "paging service (owned_request query) tok reqs out"
  shows "list_owned_files_loop service query tok files calls =
           Some (calls @ reqs,
                 case out of Inl err \<Rightarrow> Inl err | Inr its \<Rightarrow> Inr (files @ its))"
  using assms
proof (induction arbitrary: files calls rule: paging.induct)
  case (paging_error tok err)
  then show ?case by (subst list_owned_files_loop.simps) simp
next
  case (paging_last tok r)
  then show ?case by (subst list_owned_files_loop.simps) simp
next
  case (paging_next_error tok r reqs err)
  then show ?case by (subst list_owned_files_loop.simps) simp
next
  case (paging_next tok r reqs its)
  then show ?case by (subst list_owned_files_loop.simps) simp
qed

lemma list_owned_files_loop_Some:
  assumes "list_owned_files_loop service query tok files calls = Some y"
  shows "\<exists>reqs out. paging service (owned_request query) tok reqs out \<and>
           y = (calls @ reqs,
                case out of Inl err \<Rightarrow> Inl err | Inr its \<Rightarrow> Inr (files @ its))"
  using assms
proof (induction service query tok files calls y
    rule: list_owned_files_loop.raw_induct [rotated 1, consumes 1, case_names step])
  case (step loop service query tok files calls y)
  show ?case
  proof (cases "files_list service (owned_request query tok)")
    case (Inl err)
    with step(2) have "y = (calls @ [owned_request query tok], Inl err)" by simp
    moreover have "paging service (owned_request query) tok [owned_request query tok] (Inl err)"
      using Inl by (rule paging_error)
    ultimately show ?thesis by force
  next
    case (Inr r)
    show ?thesis
    proof (cases "not_token (nextPageToken r)")
      case True
      with step(2) Inr have "y = (calls @ [owned_request query tok], Inr (files @ resp_files r))"
        by simp
      moreover have "paging service (owned_request query) tok [owned_request query tok]
          (Inr (resp_files r))"
        using Inr True by (rule paging_last)
      ultimately show ?thesis by force
    next
      case False
      with step(2) Inr have "loop service query (nextPageToken r) (files @ resp_files r)
          (calls @ [owned_request query tok]) = Some y"
        by simp
      from step(1) [OF this] obtain reqs out where
        p: "paging service (owned_request query) (nextPageToken r) reqs out" and
        y: "y = ((calls @ [owned_request query tok]) @ reqs,
                case out of Inl err \<Rightarrow> Inl err
                | Inr its \<Rightarrow> Inr ((files @ resp_files r) @ its))"
        by blast
      show ?thesis
      proof (cases out)
        case (Inl err)
        with p have "paging service (owned_request query) tok (owned_request query tok # reqs) (Inl err)"
          using Inr False by (auto intro: paging_next_error)
        with y Inl show ?thesis by force
      next
        case (Inr its)
        with p have "paging service (owned_request query) tok (owned_request query tok # reqs)
            (Inr (resp_files r @ its))"
          using \<open>files_list service (owned_request query tok) = Inr r\<close> False
          by (auto intro: paging_next)
        with y Inr show ?thesis by force
      qed
    qed
  qed
qed

lemma paging_fails_iff:
  "paging service mk tok reqs out \<Longrightarrow>
   (\<exists>req\<in>set reqs. isl (files_list service req)) \<longleftrightarrow> isl out"
  by (induction rule: paging.induct) simp_all

lemma paging_returned:
  "paging service mk tok reqs (Inr its) \<Longrightarrow> its = concat (map (returned service) reqs)"
  by (induction tok reqs "Inr its :: HttpError + item list" arbitrary: its
      rule: paging.induct) (simp_all add: returned_def)

lemma paging_requests:
  "paging service mk tok reqs out \<Longrightarrow>
   \<exists>toks. reqs = mk tok # map mk toks \<and> (\<forall>t\<in>set toks. \<not> not_token t)"
proof (induction rule: paging.induct)
  case (paging_next_error tok r reqs err)
  then obtain toks where "reqs = mk (nextPageToken r) # map mk toks"
    "\<forall>t\<in>set toks. \<not> not_token t" by blast
  with paging_next_error(2) have
    "mk tok # reqs = mk tok # map mk (nextPageToken r # toks) \<and>
     (\<forall>t\<in>set (nextPageToken r # toks). \<not> not_token t)" by simp
  then show ?case by blast
next
  case (paging_next tok r reqs its)
  then obtain toks where "reqs = mk (nextPageToken r) # map mk toks"
    "\<forall>t\<in>set toks. \<not> not_token t" by blast
  with paging_next(2) have
    "mk tok # reqs = mk tok # map mk (nextPageToken r # toks) \<and>
     (\<forall>t\<in>set (nextPageToken r # toks). \<not> not_token t)" by simp
  then show ?case by blast
qed simp_all

lemma paging_deterministic:
  "paging service mk tok reqs out \<Longrightarrow> paging service mk tok reqs' out'
   \<Longrightarrow> reqs' = reqs \<and> out' = out"
proof (induction arbitrary: reqs' out' rule: paging.induct)
  case (paging_error tok err)
  from paging_error(2,1) show ?case by (cases rule: paging.cases) simp_all
next
  case (paging_last tok r)
  from paging_last(3,1,2) show ?case by (cases rule: paging.cases) simp_all
next
  case (paging_next_error tok r reqs err)
  from paging_next_error(5,1,2) paging_next_error(4) show ?case
    by (cases rule: paging.cases) auto
next
  case (paging_next tok r reqs its)
  from paging_next(5,1,2) paging_next(4) show ?case
    by (cases rule: paging.cases) auto
qed

lemma folder_request_inject:
  "folder_request (folder_query f e) tok = folder_request (folder_query g e) tok'
   \<longleftrightarrow> f = g \<and> tok = tok'"
  by (auto simp: folder_request_def folder_query_def)

lemma paging_first_page_count:
  assumes "paging service (folder_request (folder_query f e)) None reqs out"
  shows "count_list reqs (folder_request (folder_query g e) None) = (if g = f then 1 else 0)"
proof -
  from paging_requests [OF assms] obtain toks where
    reqs: "reqs = folder_request (folder_query f e) None # map (folder_request (folder_query f e)) toks"
    and toks: "\<forall>t\<in>set toks. \<not> not_token t" by blast
  have "folder_request (folder_query g e) None \<notin> set (map (folder_request (folder_query f e)) toks)"
    using toks by (auto simp: folder_request_inject not_token_def)
  then have "count_list (map (folder_request (folder_query f e)) toks)
      (folder_request (folder_query g e) None) = 0"
    by (simp only: count_list_0_iff not_False_eq_True)
  with reqs show ?thesis by (auto simp: folder_request_inject)
qed

lemma paging_folder_requests:
  assumes "paging service (folder_request (folder_query f e)) None reqs out"
  shows "\<forall>req\<in>set reqs. \<exists>g tok. req = folder_request (folder_query g e) tok"
proof -
  from paging_requests [OF assms] obtain toks where
    "reqs = folder_request (folder_query f e) None # map (folder_request (folder_query f e)) toks"
    by blast
  then have "\<forall>req\<in>set reqs. \<exists>tok. req = folder_request (folder_query f e) tok"
    by auto
  then show ?thesis by blast
qed

section \<open>The traversal loop\<close>

text \<open>
  One equation for each way through the body of the \<open>while queue\<close> loop.
\<close>

lemma folders_loop_Nil:
  "folders_loop service source_email seen [] files calls = Some (calls, Inr files)"
  by (subst folders_loop.simps) simp

lemma folders_loop_Cons:
  "folders_loop service source_email seen (folder_id # queue) files calls =
     (if folder_id \<in> seen
      then folders_loop service source_email seen queue files calls
      else
        (case folder_pages_loop service (folder_query folder_id source_email) None
                files queue calls of
           None \<Rightarrow> None
         | Some (calls', Inl error) \<Rightarrow> Some (calls', Inl error)
         | Some (calls', Inr (files', queue'')) \<Rightarrow>
             folders_loop service source_email (insert folder_id seen) queue'' files' calls'))"
  by (subst folders_loop.simps) simp

lemma folders_loop_seen:
  "folder_id \<in> seen \<Longrightarrow>
   folders_loop service source_email seen (folder_id # queue) files calls =
     folders_loop service source_email seen queue files calls"
  by (subst folders_loop.simps) simp

lemma folders_loop_error:
  "folder_id \<notin> seen \<Longrightarrow>
   paging service (folder_request (folder_query folder_id source_email)) None reqs (Inl err) \<Longrightarrow>
   folders_loop service source_email seen (folder_id # queue) files calls =
     Some (calls @ reqs, Inl err)"
  by (subst folders_loop.simps) (simp add: folder_pages_loop_paging)

lemma folders_loop_expand:
  "folder_id \<notin> seen \<Longrightarrow>
   paging service (folder_request (folder_query folder_id source_email)) None reqs (Inr its) \<Longrightarrow>
   folders_loop service source_email seen (folder_id # queue) files calls =
     folders_loop service source_email (insert folder_id seen) (queue @ sub_folders its)
       (files @ its) (calls @ reqs)"
  by (subst folders_loop.simps) (simp add: folder_pages_loop_paging)

text \<open>
  Induction over a run of the loop that returns.
\<close>

lemma folders_loop_induct [consumes 1, case_names Nil Seen Error Expand]:
  assumes major: "folders_loop service source_email seen queue files calls = Some y"
    and Nil: "\<And>seen files calls. P seen [] files calls (calls, Inr files)"
    and Seen: "\<And>seen folder_id queue files calls y.
        folder_id \<in> seen \<Longrightarrow> P seen queue files calls y
        \<Longrightarrow> P seen (folder_id # queue) files calls y"
    and Error: "\<And>seen folder_id queue files calls reqs err.
        folder_id \<notin> seen
        \<Longrightarrow> paging service (folder_request (folder_query folder_id source_email)) None reqs (Inl err)
        \<Longrightarrow> P seen (folder_id # queue) files calls (calls @ reqs, Inl err)"
    and Expand: "\<And>seen folder_id queue files calls reqs its y.
        folder_id \<notin> seen
        \<Longrightarrow> paging service (folder_request (folder_query folder_id source_email)) None reqs (Inr its)
        \<Longrightarrow> P (insert folder_id seen) (queue @ sub_folders its) (files @ its) (calls @ reqs) y
        \<Longrightarrow> P seen (folder_id # queue) files calls y"
  shows "P seen queue files calls y"
proof -
  have "s = service \<longrightarrow> e = source_email \<longrightarrow> P seen queue files calls y"
    if "folders_loop s e seen queue files calls = Some y" for s e
    using that
  proof (induction s e seen queue files calls y
      rule: folders_loop.raw_induct [rotated 1, consumes 1, case_names step])
    case (step loop s e seen queue files calls y)
    show ?case
    proof (intro impI)
      assume s: "s = service" and e: "e = source_email"
      show "P seen queue files calls y"
      proof (cases queue)
        case Nil
        with step(2) have "y = (calls, Inr files)" by simp
        with Nil show ?thesis using assms(2) by simp
      next
        case (Cons folder_id queue')
        show ?thesis
        proof (cases "folder_id \<in> seen")
          case True
          with step(2) Cons have "loop s e seen queue' files calls = Some y" by simp
          from step(1) [OF this] s e have "P seen queue' files calls y" by simp
          with True Cons show ?thesis by (simp add: Seen)
        next
          case False
          from step(2) Cons False obtain z where
            z: "folder_pages_loop s (folder_query folder_id e) None files queue' calls = Some z"
            by (auto split: option.splits)
          from folder_pages_loop_Some [OF this] obtain reqs out where
            p: "paging s (folder_request (folder_query folder_id e)) None reqs out" and
            zeq: "z = (calls @ reqs, case out of Inl err \<Rightarrow> Inl err
                    | Inr its \<Rightarrow> Inr (files @ its, queue' @ sub_folders its))"
            by blast
          show ?thesis
          proof (cases out)
            case (Inl err)
            with step(2) Cons False z zeq have "y = (calls @ reqs, Inl err)" by simp
            with p Inl False Cons s e show ?thesis by (simp add: Error)
          next
            case (Inr its)
            with step(2) Cons False z zeq have
              "loop s e (insert folder_id seen) (queue' @ sub_folders its) (files @ its)
                 (calls @ reqs) = Some y"
              by simp
            from step(1) [OF this] s e have
              "P (insert folder_id seen) (queue' @ sub_folders its) (files @ its) (calls @ reqs) y"
              by simp
            with p Inr False Cons s e show ?thesis by (auto intro: Expand)
          qed
        qed
      qed
    qed
  qed
  with major show ?thesis by blast
qed

lemma folders_loop_calls:
  assumes "folders_loop service source_email seen queue files calls = Some y"
  shows "\<exists>reqs. fst y = calls @ reqs \<and>
           ((\<exists>req\<in>set reqs. isl (files_list service req)) \<longleftrightarrow> isl (snd y)) \<and>
           (\<forall>its. snd y = Inr its \<longrightarrow> its = files @ concat (map (returned service) reqs)) \<and>
           (\<forall>req\<in>set reqs. \<exists>g tok. req = folder_request (folder_query g source_email) tok)"
  using assms
proof (induction rule: folders_loop_induct)
  case (Nil seen files calls)
  show ?case by simp
next
  case (Seen seen folder_id queue files calls y)
  then show ?case by simp
next
  case (Error seen folder_id queue files calls reqs err)
  from paging_fails_iff [OF Error(2)] have "\<exists>req\<in>set reqs. isl (files_list service req)"
    by simp
  moreover note paging_folder_requests [OF Error(2)]
  ultimately show ?case by simp
next
  case (Expand seen folder_id queue files calls reqs its y)
  from Expand(3) obtain reqs' where
    1: "fst y = (calls @ reqs) @ reqs'" and
    2: "(\<exists>req\<in>set reqs'. isl (files_list service req)) \<longleftrightarrow> isl (snd y)" and
    3: "\<forall>its'. snd y = Inr its' \<longrightarrow> its' = (files @ its) @ concat (map (returned service) reqs')" and
    4: "\<forall>req\<in>set reqs'. \<exists>g tok. req = folder_request (folder_query g source_email) tok"
    by blast
  from paging_fails_iff [OF Expand(2)] have 5: "\<forall>req\<in>set reqs. \<not> isl (files_list service req)"
    by simp
  note 6 = paging_folder_requests [OF Expand(2)]
  have "fst y = calls @ (reqs @ reqs')" using 1 by simp
  moreover have "(\<exists>req\<in>set (reqs @ reqs'). isl (files_list service req)) \<longleftrightarrow> isl (snd y)"
    using 2 5 by auto
  moreover have "\<forall>its'. snd y = Inr its' \<longrightarrow>
      its' = files @ concat (map (returned service) (reqs @ reqs'))"
    using 3 paging_returned [OF Expand(2)] by simp
  moreover have "\<forall>req\<in>set (reqs @ reqs'). \<exists>g tok.
      req = folder_request (folder_query g source_email) tok"
    using 4 6 by auto
  ultimately show ?case by blast
qed

lemma folders_loop_first_pages:
  assumes "folders_loop service source_email seen queue files calls = Some y"
  shows "\<exists>reqs. fst y = calls @ reqs \<and>
           (\<forall>g. count_list reqs (folder_request (folder_query g source_email) None)
                  \<le> (if g \<in> seen then 0 else 1))"
  using assms
proof (induction rule: folders_loop_induct)
  case (Nil seen files calls)
  show ?case by simp
next
  case (Seen seen folder_id queue files calls y)
  then show ?case by simp
next
  case (Error seen folder_id queue files calls reqs err)
  have "\<forall>g. count_list reqs (folder_request (folder_query g source_email) None)
                  \<le> (if g \<in> seen then 0 else 1)"
    using Error(1) by (simp add: paging_first_page_count [OF Error(2)])
  then show ?case by simp
next
  case (Expand seen folder_id queue files calls reqs its y)
  from Expand(3) obtain reqs' where
    1: "fst y = (calls @ reqs) @ reqs'" and
    2: "\<forall>g. count_list reqs' (folder_request (folder_query g source_email) None)
                  \<le> (if g \<in> insert folder_id seen then 0 else 1)"
    by blast
  have "count_list (reqs @ reqs') (folder_request (folder_query g source_email) None)
                  \<le> (if g \<in> seen then 0 else 1)" for g
    using 2 [rule_format, of g] Expand(1)
    by (cases "g = folder_id") (auto simp: paging_first_page_count [OF Expand(2)])
  with 1 have "fst y = calls @ (reqs @ reqs') \<and>
     (\<forall>g. count_list (reqs @ reqs') (folder_request (folder_query g source_email) None)
                  \<le> (if g \<in> seen then 0 else 1))" by simp
  then show ?case by blast
qed

text \<open>
  On a finite drive the loop returns: a folder that is expanded leaves the finite set of
  folders not yet seen, and a folder that is skipped shortens the queue.
\<close>

lemma folders_loop_terminates:
  assumes fin: "finite U" and closed: "listing_closed service source_email U"
  shows "set queue \<subseteq> U \<Longrightarrow> \<exists>y. folders_loop service source_email seen queue files calls = Some y"
proof (induction "card (U - seen)" arbitrary: seen queue files calls rule: less_induct)
  case less
  show ?case using less(2)
  proof (induction queue)
    case Nil
    show ?case by (simp add: folders_loop_Nil)
  next
    case (Cons folder_id queue)
    show ?case
    proof (cases "folder_id \<in> seen")
      case True
      with Cons show ?thesis by (simp add: folders_loop_seen)
    next
      case False
      from Cons(2) have fU: "folder_id \<in> U" by simp
      with closed obtain reqs out where
        p: "paging service (folder_request (folder_query folder_id source_email)) None reqs out" and
        sub: "\<forall>its. out = Inr its \<longrightarrow> set (sub_folders its) \<subseteq> U"
        unfolding listing_closed_def by blast
      show ?thesis
      proof (cases out)
        case (Inl err)
        with p False show ?thesis by (simp add: folders_loop_error)
      next
        case (Inr its)
        have "card (U - insert folder_id seen) < card (U - seen)"
          using fin fU False by (intro psubset_card_mono) auto
        moreover have "set (queue @ sub_folders its) \<subseteq> U"
          using Cons(2) sub Inr by simp
        ultimately have "\<exists>y. folders_loop service source_email (insert folder_id seen)
            (queue @ sub_folders its) (files @ its) (calls @ reqs) = Some y"
          by (rule less(1))
        with p Inr False show ?thesis by (simp add: folders_loop_expand)
      qed
    qed
  qed
qed

lemma children_deterministic:
  "children service e f its \<Longrightarrow> children service e f its' \<Longrightarrow> its' = its"
  unfolding children_def using paging_deterministic by blast

lemma reachable_mono:
  assumes "set A \<subseteq> reachable service e B"
  shows "reachable service e A \<subseteq> reachable service e B"
proof
  fix f assume "f \<in> reachable service e A"
  then show "f \<in> reachable service e B"
  proof (induction rule: reachable.induct)
    case (root f)
    with assms show ?case by blast
  next
    case (child f its g)
    then show ?case by (blast intro: reachable.child)
  qed
qed

lemma reachable_closed:
  assumes "set A \<subseteq> S"
    and "\<And>f its. f \<in> S \<Longrightarrow> children service e f its \<Longrightarrow> set (sub_folders its) \<subseteq> S"
  shows "reachable service e A \<subseteq> S"
proof
  fix f assume "f \<in> reachable service e A"
  then show "f \<in> S"
  proof (induction rule: reachable.induct)
    case (root f)
    with assms(1) show ?case by blast
  next
    case (child f its g)
    with assms(2) show ?case by blast
  qed
qed

lemma count_list_concat:
  "count_list (concat xss) x = sum_list (map (\<lambda>xs. count_list xs x) xss)"
  by (induction xss) simp_all

text \<open>
  A run that returns a list is a sequence of folder expansions: the folders are distinct,
  they are the reachable ones, the request log is their requests in order and the list is
  their listings in order.
\<close>

lemma folder_run_children:
  "folder_run service e f run \<Longrightarrow> children service e f (snd run)"
  unfolding folder_run_def children_def by blast

lemma folders_loop_runs:
  assumes "folders_loop service source_email seen queue files calls = Some y"
  shows "\<forall>items. snd y = Inr items \<longrightarrow>
     (\<exists>order runs. distinct order \<and> set order \<inter> seen = {} \<and>
        list_all2 (folder_run service source_email) order runs \<and>
        fst y = calls @ concat (map fst runs) \<and>
        items = files @ concat (map snd runs) \<and>
        set queue \<subseteq> seen \<union> set order \<and>
        (\<forall>f\<in>set order. \<forall>its. children service source_email f its
            \<longrightarrow> set (sub_folders its) \<subseteq> seen \<union> set order) \<and>
        set order \<subseteq> reachable service source_email queue)"
  using assms
proof (induction rule: folders_loop_induct)
  case (Nil seen files calls)
  have "distinct [] \<and> set [] \<inter> seen = {} \<and>
        list_all2 (folder_run service source_email) [] [] \<and>
        calls = calls @ concat (map fst []) \<and>
        files = files @ concat (map snd []) \<and> set [] \<subseteq> seen \<union> set [] \<and>
        (\<forall>f\<in>set []. \<forall>its. children service source_email f its
            \<longrightarrow> set (sub_folders its) \<subseteq> seen \<union> set []) \<and>
        set [] \<subseteq> reachable service source_email []" by simp
  then show ?case by (metis fst_conv snd_conv sum.inject(2))
next
  case (Seen seen folder_id queue files calls y)
  show ?case
  proof (intro allI impI)
    fix items assume "snd y = Inr items"
    with Seen(2) obtain order runs where o: "distinct order" "set order \<inter> seen = {}"
      "list_all2 (folder_run service source_email) order runs"
      "fst y = calls @ concat (map fst runs)"
      "items = files @ concat (map snd runs)" "set queue \<subseteq> seen \<union> set order"
      "\<forall>f\<in>set order. \<forall>its. children service source_email f its
            \<longrightarrow> set (sub_folders its) \<subseteq> seen \<union> set order"
      "set order \<subseteq> reachable service source_email queue" by blast
    have "reachable service source_email queue \<subseteq> reachable service source_email (folder_id # queue)"
      by (rule reachable_mono) (auto intro: reachable.root)
    with o(8) have "set order \<subseteq> reachable service source_email (folder_id # queue)" by blast
    moreover have "set (folder_id # queue) \<subseteq> seen \<union> set order" using o(6) Seen(1) by auto
    ultimately show "\<exists>order runs. distinct order \<and> set order \<inter> seen = {} \<and>
        list_all2 (folder_run service source_email) order runs \<and>
        fst y = calls @ concat (map fst runs) \<and>
        items = files @ concat (map snd runs) \<and>
        set (folder_id # queue) \<subseteq> seen \<union> set order \<and>
        (\<forall>f\<in>set order. \<forall>its. children service source_email f its
            \<longrightarrow> set (sub_folders its) \<subseteq> seen \<union> set order) \<and>
        set order \<subseteq> reachable service source_email (folder_id # queue)"
      using o(1-5,7) by blast
  qed
next
  case (Error seen folder_id queue files calls reqs err)
  show ?case by simp
next
  case (Expand seen folder_id queue files calls reqs its y)
  let ?R = "reachable service source_email (folder_id # queue)"
  have fr: "folder_run service source_email folder_id (reqs, its)"
    using Expand(2) unfolding folder_run_def by simp
  have ch: "children service source_email folder_id its"
    using Expand(2) unfolding children_def by blast
  show ?case
  proof (intro allI impI)
    fix items assume "snd y = Inr items"
    with Expand(3) obtain order runs where o: "distinct order"
      "set order \<inter> insert folder_id seen = {}"
      "list_all2 (folder_run service source_email) order runs"
      "fst y = (calls @ reqs) @ concat (map fst runs)"
      "items = (files @ its) @ concat (map snd runs)"
      "set (queue @ sub_folders its) \<subseteq> insert folder_id seen \<union> set order"
      "\<forall>f\<in>set order. \<forall>its. children service source_email f its
            \<longrightarrow> set (sub_folders its) \<subseteq> insert folder_id seen \<union> set order"
      "set order \<subseteq> reachable service source_email (queue @ sub_folders its)" by blast
    have root: "folder_id \<in> ?R" by (simp add: reachable.root)
    have "set (queue @ sub_folders its) \<subseteq> ?R"
      using reachable.child [OF root ch] by (auto intro: reachable.root)
    then have "reachable service source_email (queue @ sub_folders its) \<subseteq> ?R"
      by (rule reachable_mono)
    with o(8) root have 8: "set (folder_id # order) \<subseteq> ?R" by auto
    have 1: "distinct (folder_id # order)" using o(1,2) by auto
    have 2: "set (folder_id # order) \<inter> seen = {}" using o(2) Expand(1) by auto
    have 3: "list_all2 (folder_run service source_email) (folder_id # order) ((reqs, its) # runs)"
      using o(3) fr by simp
    have 4: "fst y = calls @ concat (map fst ((reqs, its) # runs))" using o(4) by simp
    have 5: "items = files @ concat (map snd ((reqs, its) # runs))" using o(5) by simp
    have 6: "set (folder_id # queue) \<subseteq> seen \<union> set (folder_id # order)" using o(6) by auto
    have 7: "\<forall>f\<in>set (folder_id # order). \<forall>its'. children service source_email f its'
            \<longrightarrow> set (sub_folders its') \<subseteq> seen \<union> set (folder_id # order)"
    proof (intro ballI allI impI)
      fix f its' assume f: "f \<in> set (folder_id # order)" and c: "children service source_email f its'"
      show "set (sub_folders its') \<subseteq> seen \<union> set (folder_id # order)"
      proof (cases "f = folder_id")
        case True
        with c ch have "its' = its" by (auto dest: children_deterministic)
        with o(6) show ?thesis by auto
      next
        case False
        with f have "f \<in> set order" by simp
        with o(7) c show ?thesis by auto
      qed
    qed
    from 1 2 3 4 5 6 7 8 show "\<exists>order runs. distinct order \<and> set order \<inter> seen = {} \<and>
        list_all2 (folder_run service source_email) order runs \<and>
        fst y = calls @ concat (map fst runs) \<and>
        items = files @ concat (map snd runs) \<and>
        set (folder_id # queue) \<subseteq> seen \<union> set order \<and>
        (\<forall>f\<in>set order. \<forall>its. children service source_email f its
            \<longrightarrow> set (sub_folders its) \<subseteq> seen \<union> set order) \<and>
        set order \<subseteq> reachable service source_email (folder_id # queue)"
      by blast
  qed
qed

lemma list_owned_in_folders_runs:
  assumes "list_owned_in_folders service source_email folder_ids = Some (calls, Inr items)"
  shows "\<exists>order runs. distinct order \<and>
           set order = reachable service source_email folder_ids \<and>
           list_all2 (folder_run service source_email) order runs \<and>
           calls = concat (map fst runs) \<and> items = concat (map snd runs)"
proof -
  from assms have "folders_loop service source_email {} folder_ids [] [] = Some (calls, Inr items)"
    by (simp add: list_owned_in_folders_def)
  from folders_loop_runs [OF this] obtain order runs where o: "distinct order"
      "list_all2 (folder_run service source_email) order runs"
      "calls = concat (map fst runs)"
      "items = concat (map snd runs)" "set folder_ids \<subseteq> set order"
      "\<forall>f\<in>set order. \<forall>its. children service source_email f its
            \<longrightarrow> set (sub_folders its) \<subseteq> set order"
      "set order \<subseteq> reachable service source_email folder_ids" by auto
  have "reachable service source_email folder_ids \<subseteq> set order"
    using o(5) o(6) by (intro reachable_closed) auto
  with o show ?thesis by blast
qed

lemma folder_run_first_page:
  assumes "folder_run service e f run"
  shows "filter (\<lambda>req. list_pageToken req = None) (fst run) = [folder_request (folder_query f e) None]"
proof -
  from assms paging_requests obtain toks where
    reqs: "fst run = folder_request (folder_query f e) None
             # map (folder_request (folder_query f e)) toks" and
    toks: "\<forall>t\<in>set toks. \<not> not_token t"
    unfolding folder_run_def by blast
  have "t \<noteq> None" if "t \<in> set toks" for t
    using toks that by (cases t) (auto simp: not_token_def)
  then have "filter (\<lambda>req. list_pageToken req = None)
      (map (folder_request (folder_query f e)) toks) = []"
    by (auto simp: filter_empty_conv folder_request_def)
  with reqs show ?thesis by (simp add: folder_request_def)
qed

lemma runs_first_pages:
  assumes "list_all2 (folder_run service e) order runs"
  shows "filter (\<lambda>req. list_pageToken req = None) (concat (map fst runs)) =
           map (\<lambda>f. folder_request (folder_query f e) None) order"
  using assms by (induction rule: list_all2_induct) (simp_all add: folder_run_first_page)

lemma first_page_inj: "inj (\<lambda>f. folder_request (folder_query f e) None)"
  by (rule injI) (simp add: folder_request_inject)

lemma expanded_iff_reachable:
  assumes "list_owned_in_folders service e folder_ids = Some (calls, Inr items)"
  shows "folder_request (folder_query p e) None \<in> set calls
           \<longleftrightarrow> p \<in> reachable service e folder_ids"
proof -
  from list_owned_in_folders_runs [OF assms] obtain order runs where
    r: "set order = reachable service e folder_ids" and
    l: "list_all2 (folder_run service e) order runs" and c: "calls = concat (map fst runs)"
    by blast
  from runs_first_pages [OF l] c have
    "set (filter (\<lambda>req. list_pageToken req = None) calls) =
       (\<lambda>f. folder_request (folder_query f e) None) ` set order" by simp
  moreover have "folder_request (folder_query p e) None \<in> set calls \<longleftrightarrow>
      folder_request (folder_query p e) None \<in> set (filter (\<lambda>req. list_pageToken req = None) calls)"
    by (simp add: folder_request_def)
  ultimately show ?thesis using r by (auto simp: folder_request_inject)
qed

lemma reachable_listings:
  assumes "list_owned_in_folders service e folder_ids = Some (calls, Inr items)"
  shows "\<exists>ps chs. distinct ps \<and> set ps = reachable service e folder_ids \<and>
           list_all2 (children service e) ps chs"
proof -
  from list_owned_in_folders_runs [OF assms] obtain order runs where
    d: "distinct order" and r: "set order = reachable service e folder_ids" and
    l: "list_all2 (folder_run service e) order runs"
    by blast
  from l have "list_all2 (children service e) order (map snd runs)"
    by (induction rule: list_all2_induct) (simp_all add: folder_run_children)
  with d r show ?thesis by blast
qed

lemma children_counts:
  assumes run: "list_owned_in_folders service e folder_ids = Some (calls, Inr items)"
    and ps: "distinct ps" "set ps \<subseteq> reachable service e folder_ids"
      "list_all2 (children service e) ps chs"
  shows "sum_list (map (\<lambda>its. count_list its x) chs) \<le> count_list items x"
    and "set ps = reachable service e folder_ids \<Longrightarrow>
           count_list items x = sum_list (map (\<lambda>its. count_list its x) chs)"
proof -
  define L where "L = (\<lambda>f. THE its. children service e f its)"
  have L: "L f = its" if "children service e f its" for f its
    unfolding L_def using that by (rule the_equality) (rule children_deterministic [OF that])
  from list_owned_in_folders_runs [OF run] obtain order runs where
    d: "distinct order" and r: "set order = reachable service e folder_ids" and
    l: "list_all2 (folder_run service e) order runs" and i: "items = concat (map snd runs)"
    by blast
  from l have "map snd runs = map L order"
    by (induction rule: list_all2_induct) (auto dest!: folder_run_children L)
  with i have "count_list items x = sum_list (map (\<lambda>f. count_list (L f) x) order)"
    by (simp add: count_list_concat comp_def)
  with d have total: "count_list items x = (\<Sum>f\<in>set order. count_list (L f) x)"
    by (simp add: sum_list_distinct_conv_sum_set)
  from ps(3) have "chs = map L ps"
    by (induction rule: list_all2_induct) (auto dest!: L)
  then have "sum_list (map (\<lambda>its. count_list its x) chs)
      = sum_list (map (\<lambda>f. count_list (L f) x) ps)"
    by (simp add: comp_def)
  with ps(1) have part: "sum_list (map (\<lambda>its. count_list its x) chs)
      = (\<Sum>f\<in>set ps. count_list (L f) x)"
    by (simp add: sum_list_distinct_conv_sum_set)
  have "(\<Sum>f\<in>set ps. count_list (L f) x) \<le> (\<Sum>f\<in>set order. count_list (L f) x)"
  proof (rule sum_mono2)
    show "finite (set order)" by simp
    show "set ps \<subseteq> set order" using ps(2) r by simp
  qed simp
  with part total show "sum_list (map (\<lambda>its. count_list its x) chs) \<le> count_list items x"
    by simp
  show "count_list items x = sum_list (map (\<lambda>its. count_list its x) chs)"
    if "set ps = reachable service e folder_ids"
    using that part total r by simp
qed

text \<open>
  On a finite drive with no failing listing the loop returns a list.
\<close>

lemma folders_loop_returns_list:
  assumes fin: "finite U" and complete: "listing_complete service source_email U"
  shows "set queue \<subseteq> U \<Longrightarrow>
    \<exists>calls' items. folders_loop service source_email seen queue files calls = Some (calls', Inr items)"
proof (induction "card (U - seen)" arbitrary: seen queue files calls rule: less_induct)
  case less
  show ?case using less(2)
  proof (induction queue)
    case Nil
    show ?case by (simp add: folders_loop_Nil)
  next
    case (Cons folder_id queue)
    show ?case
    proof (cases "folder_id \<in> seen")
      case True
      with Cons show ?thesis by (simp add: folders_loop_seen)
    next
      case False
      from Cons(2) have fU: "folder_id \<in> U" by simp
      with complete obtain reqs its where
        p: "paging service (folder_request (folder_query folder_id source_email)) None reqs (Inr its)"
        and sub: "set (sub_folders its) \<subseteq> U"
        unfolding listing_complete_def children_def by blast
      have "card (U - insert folder_id seen) < card (U - seen)"
        using fin fU False by (intro psubset_card_mono) auto
      moreover have "set (queue @ sub_folders its) \<subseteq> U"
        using Cons(2) sub by simp
      ultimately have "\<exists>calls' items. folders_loop service source_email (insert folder_id seen)
          (queue @ sub_folders its) (files @ its) (calls @ reqs) = Some (calls', Inr items)"
        by (rule less(1))
      with p False show ?thesis by (simp add: folders_loop_expand)
    qed
  qed
qed

section \<open>Listing and transfer in \<open>main\<close>\<close>

lemma list_owned_files_fails_iff:
  assumes "list_owned_files service source_email = Some (calls, res)"
  shows "(\<exists>req\<in>set calls. isl (files_list service req)) \<longleftrightarrow> isl res"
proof -
  from assms list_owned_files_loop_Some obtain reqs out where
    p: "paging service (owned_request (owned_query source_email)) None reqs out" and
    "(calls, res) = ([] @ reqs, case out of Inl err \<Rightarrow> Inl err | Inr its \<Rightarrow> Inr ([] @ its))"
    unfolding list_owned_files_def by blast
  then have "calls = reqs" "isl res = isl out" by (auto split: sum.splits)
  with paging_fails_iff [OF p] show ?thesis by simp
qed

lemma list_owned_in_folders_fails_iff:
  assumes "list_owned_in_folders service source_email folder_ids = Some (calls, res)"
  shows "(\<exists>req\<in>set calls. isl (files_list service req)) \<longleftrightarrow> isl res"
  using folders_loop_calls [of service source_email "{}" folder_ids "[]" "[]" "(calls, res)"] assms
  by (auto simp: list_owned_in_folders_def)

lemma main_listing_fails_iff:
  assumes "main_listing service a = Some (calls, res)"
  shows "(\<exists>req\<in>set calls. isl (files_list service req)) \<longleftrightarrow> isl res"
  using assms list_owned_files_fails_iff list_owned_in_folders_fails_iff
  unfolding main_listing_def by (auto split: option.splits list.splits)

lemma listing_ends_scoped:
  assumes "args_folder_ids a = Some (f # fs)" and "finite U" and "set (f # fs) \<subseteq> U"
    and "listing_closed service (args_source_email a) U"
  shows "listing_ends service a"
proof -
  from assms(2-4) have "\<exists>U. finite U \<and> set (f # fs) \<subseteq> U \<and>
      listing_closed service (args_source_email a) U" by blast
  with assms(1) show ?thesis by (simp only: listing_ends_def option.case list.case)
qed

lemma main_listing_returns:
  assumes "listing_ends service a"
  shows "\<exists>y. main_listing service a = Some y"
proof (cases "\<exists>f fs. args_folder_ids a = Some (f # fs)")
  case True
  then obtain f fs where ids: "args_folder_ids a = Some (f # fs)" by blast
  with assms obtain U where "finite U" "set (f # fs) \<subseteq> U"
    "listing_closed service (args_source_email a) U"
    unfolding listing_ends_def by auto
  from folders_loop_terminates [OF this(1,3,2)] ids show ?thesis
    by (simp add: main_listing_def list_owned_in_folders_def)
next
  case False
  with assms obtain reqs out where
    p: "paging service (owned_request (owned_query (args_source_email a))) None reqs out"
    unfolding listing_ends_def by (auto split: option.splits list.splits)
  from False have "main_listing service a = list_owned_files service (args_source_email a)"
    unfolding main_listing_def by (auto split: option.splits list.splits)
  with list_owned_files_loop_paging [OF p] show ?thesis
    by (simp add: list_owned_files_def)
qed

lemma transfer_loop_dry_run:
  "transfer_loop service target_email True items out pcalls =
     (out @ map (\<lambda>item. Would_transfer (item_name item) (item_id item)) items, pcalls)"
  by (induction items arbitrary: out pcalls) simp_all

lemma transfer_loop_real:
  "transfer_loop service target_email False items out pcalls =
     (out @ map (outcome service target_email) items,
      pcalls @ map (\<lambda>item. permission (item_id item) target_email) items)"
  by (induction items arbitrary: out pcalls) (simp_all add: outcome_def split: sum.splits)

lemma main_listing_error:
  "main_listing service a = Some (calls, Inl err) \<Longrightarrow>
   main service a = Some \<lparr>exit_code = 1, printed = [Failed_to_list err],
                          list_calls = calls, permission_calls = []\<rparr>"
  by (simp add: main_def)

lemma main_no_files:
  "main_listing service a = Some (calls, Inr []) \<Longrightarrow>
   main service a = Some \<lparr>exit_code = 0, printed = [No_files],
                          list_calls = calls, permission_calls = []\<rparr>"
  by (simp add: main_def)

lemma main_dry_run:
  "main_listing service a = Some (calls, Inr items) \<Longrightarrow> items \<noteq> [] \<Longrightarrow> args_dry_run a \<Longrightarrow>
   main service a = Some \<lparr>exit_code = 0,
      printed = Found (length items) # map (\<lambda>item. Would_transfer (item_name item) (item_id item)) items,
      list_calls = calls, permission_calls = []\<rparr>"
  by (simp add: main_def transfer_loop_dry_run)

lemma main_real:
  "main_listing service a = Some (calls, Inr items) \<Longrightarrow> items \<noteq> [] \<Longrightarrow> \<not> args_dry_run a \<Longrightarrow>
   main service a = Some \<lparr>exit_code = 0,
      printed = Found (length items) # map (outcome service (args_target_email a)) items,
      list_calls = calls,
      permission_calls = map (\<lambda>item. permission (item_id item) (args_target_email a)) items\<rparr>"
  by (simp add: main_def transfer_loop_real)

lemma main_real_service:
  assumes "main_listing service a = Some (calls, Inr items)" "items \<noteq> []" "\<not> args_dry_run a"
  shows "main service a =
     Some \<lparr>exit_code = 0,
       printed = Found (length items) #
         map (\<lambda>item.
           case permissions_create service
                  \<lparr>fileId = item_id item, body_type = ''user'', body_role = ''owner'',
                   body_emailAddress = args_target_email a, transferOwnership = True,
                   supportsAllDrives = True, sendNotificationEmail = False\<rparr> of
             Inl err \<Rightarrow> Failed_to_transfer (item_name item) (item_id item) err
           | Inr u \<Rightarrow> Transferred (item_name item) (item_id item)) items,
       list_calls = calls,
       permission_calls =
         map (\<lambda>item. \<lparr>fileId = item_id item, body_type = ''user'', body_role = ''owner'',
                   body_emailAddress = args_target_email a, transferOwnership = True,
                   supportsAllDrives = True, sendNotificationEmail = False\<rparr>) items\<rparr>"
  using main_real [OF assms]
  by (simp add: outcome_def [abs_def] transfer_file_def permission_def [abs_def])

section \<open>Evaluating the examples\<close>

lemma childrenI:
  assumes "folder_pages_loop service (folder_query f e) None [] [] [] = Some (calls, Inr (its, queue))"
  shows "children service e f its"
proof -
  from folder_pages_loop_Some [OF assms] obtain reqs out where
    p: "paging service (folder_request (folder_query f e)) None reqs out" and
    eq: "(calls, Inr (its, queue)) = ([] @ reqs,
           case out of Inl err \<Rightarrow> Inl err | Inr its \<Rightarrow> Inr ([] @ its, [] @ sub_folders its))"
    by blast
  from eq have "out = Inr its" by (cases out) simp_all
  with p show ?thesis unfolding children_def by blast
qed

lemma children_queue:
  assumes "children service e f its"
  shows "folder_pages_loop service (folder_query f e) None [] [] [] \<noteq> None \<and>
    (\<forall>calls files queue. folder_pages_loop service (folder_query f e) None [] [] []
         = Some (calls, Inr (files, queue)) \<longrightarrow> files = its \<and> queue = sub_folders its)"
  using assms unfolding children_def by (auto simp: folder_pages_loop_paging)

lemma listing_closedI:
  assumes "\<And>f. f \<in> U \<Longrightarrow> \<exists>calls res.
      folder_pages_loop service (folder_query f e) None [] [] [] = Some (calls, res) \<and>
      (\<forall>files queue. res = Inr (files, queue) \<longrightarrow> set queue \<subseteq> U)"
  shows "listing_closed service e U"
  unfolding listing_closed_def
proof
  fix f assume "f \<in> U"
  from assms [OF this] obtain calls res where
    run: "folder_pages_loop service (folder_query f e) None [] [] [] = Some (calls, res)" and
    sub: "\<forall>files queue. res = Inr (files, queue) \<longrightarrow> set queue \<subseteq> U" by blast
  from folder_pages_loop_Some [OF run] obtain reqs out where
    p: "paging service (folder_request (folder_query f e)) None reqs out" and
    eq: "(calls, res) = ([] @ reqs,
           case out of Inl err \<Rightarrow> Inl err | Inr its \<Rightarrow> Inr ([] @ its, [] @ sub_folders its))"
    by blast
  have "\<forall>its. out = Inr its \<longrightarrow> set (sub_folders its) \<subseteq> U"
    using eq sub by auto
  with p show "\<exists>reqs out. paging service (folder_request (folder_query f e)) None reqs out \<and>
        (\<forall>its. out = Inr its \<longrightarrow> set (sub_folders its) \<subseteq> U)" by blast
qed

lemmas eval_simps =
  list_owned_in_folders_def folders_loop_Nil folders_loop_Cons folder_pages_loop.simps
  list_owned_files_def list_owned_files_loop.simps
  folder_query_def folder_request_def owned_query_def owned_request_def
  not_token_def folder_mime_def page_def src_def tgt_def

lemma shared_run:
  "list_owned_in_folders shared_service src [''a'', ''b''] =
     Some (map (\<lambda>f. folder_request (folder_query f src) None) [''a'', ''b''],
           Inr [file_x, file_x])"
  by (simp add: eval_simps shared_service_def file_x_def)

lemma shared_children:
  "children shared_service src ''a'' [file_x]" "children shared_service src ''b'' [file_x]"
  by (rule childrenI [where queue = "[]"], simp add: eval_simps shared_service_def file_x_def)+

lemma shared_edges: "folder_edges shared_service src = {}"
proof -
  have "sub_folders its = []" if "children shared_service src f its" for f its
    using children_queue [OF that]
    by (auto simp: eval_simps shared_service_def file_x_def sub_folders_def split: if_splits)
  then show ?thesis unfolding folder_edges_def by auto
qed

lemma diamond_run:
  "list_owned_in_folders diamond_service src [''r''] =
     Some (map (\<lambda>f. folder_request (folder_query f src) None) [''r'', ''a'', ''b''],
           Inr [folder_a, folder_b, file_x, file_x])"
  by (simp add: eval_simps diamond_service_def file_x_def folder_a_def folder_b_def)

lemma diamond_children:
  "children diamond_service src ''a'' [file_x]" "children diamond_service src ''b'' [file_x]"
  by (rule childrenI [where queue = "[]"],
      simp add: eval_simps diamond_service_def file_x_def folder_a_def folder_b_def)+

lemma diamond_complete: "listing_complete diamond_service src {''r'', ''a'', ''b''}"
proof -
  have r: "children diamond_service src ''r'' [folder_a, folder_b]"
    by (rule childrenI [where queue = "[''a'', ''b'']"])
      (simp add: eval_simps diamond_service_def file_x_def folder_a_def folder_b_def)
  have "set (sub_folders [folder_a, folder_b]) \<subseteq> {''r'', ''a'', ''b''}"
    "set (sub_folders [file_x]) \<subseteq> {''r'', ''a'', ''b''}"
    by (simp_all add: sub_folders_def folder_a_def folder_b_def file_x_def folder_mime_def)
  with r diamond_children show ?thesis
    unfolding listing_complete_def by blast
qed

lemma cyclic_closed: "listing_closed cyclic_service src {''c1'', ''c2''}"
  by (rule listing_closedI) (auto simp: eval_simps cyclic_service_def folder_c1_def folder_c2_def)

lemma failing_closed: "listing_closed failing_service src {''r'', ''a''}"
  by (rule listing_closedI)
    (auto simp: eval_simps failing_service_def folder_a_def file_x_def)

lemma failing_run:
  "main_listing failing_service failing_args =
     Some ([folder_request (folder_query ''r'' src) None,
            folder_request (folder_query ''r'' src) (Some ''p2'')],
           Inl (HttpError ''backendError''))"
  by (simp add: main_listing_def failing_args_def eval_simps failing_service_def
      folder_a_def file_x_def)

lemma abc_run:
  "main_listing abc_service a =
     (case args_folder_ids a of
        Some (f # fs) \<Rightarrow> main_listing abc_service a
      | _ \<Rightarrow> Some ([owned_request (owned_query (args_source_email a)) None],
                  Inr [item_A, item_B, item_C]))"
  by (simp add: main_listing_def eval_simps abc_service_def split: option.splits list.splits)

section \<open>The claims\<close>

subsection \<open>C1: every reachable item exactly once\<close>

text \<open>
  Claim C1 says that on a folder graph without cycles every item reachable from the given
  folders occurs exactly once in the Result List. It fails where an item has two parents: the
  service \<open>shared_service\<close> shows no folder below a folder, so its graph has no edge at
  all, the file \<open>x\<close> is listed under both given folders \<open>a\<close> and \<open>b\<close>, and the returned
  list holds it twice.
\<close>

theorem shared_item_listed_twice:
  "acyclic (folder_edges shared_service src) \<and>
   children shared_service src ''a'' [file_x] \<and>
   children shared_service src ''b'' [file_x] \<and>
   list_owned_in_folders shared_service src [''a'', ''b''] =
     Some ([folder_request (folder_query ''a'' src) None,
            folder_request (folder_query ''b'' src) None],
           Inr [file_x, file_x]) \<and>
   count_list [file_x, file_x] file_x = 2"
  using shared_run shared_children by (simp add: shared_edges acyclic_def)

text \<open>
  Claim C1, amended: for every sequence of folder ids, on a finite drive with no failing
  listing and a folder graph with or without cycles, \<open>list_owned_in_folders\<close> returns a
  Result List; the run expands exactly the reachable folders, each of them once (its request
  log is their requests, one folder after the other, so its first-page requests name them in
  the order of expansion); and the Result List is the concatenation of their listings in that
  order. So every item listed under a reachable folder occurs in the list, as many times as
  the listings of the reachable folders hold it together, which is more than once where two
  reachable folders list it.
\<close>

theorem result_list_by_reachable_folders:
  assumes "finite U" and "set folder_ids \<subseteq> U"
    and "listing_complete service source_email U"
  shows "\<exists>calls items order runs.
      list_owned_in_folders service source_email folder_ids = Some (calls, Inr items) \<and>
      distinct order \<and> set order = reachable service source_email folder_ids \<and>
      list_all2 (folder_run service source_email) order runs \<and>
      calls = concat (map fst runs) \<and>
      filter (\<lambda>req. list_pageToken req = None) calls =
        map (\<lambda>f. folder_request (folder_query f source_email) None) order \<and>
      items = concat (map snd runs) \<and>
      (\<forall>x. count_list items x = sum_list (map (\<lambda>run. count_list (snd run) x) runs)) \<and>
      (\<forall>f its. f \<in> reachable service source_email folder_ids \<longrightarrow>
         children service source_email f its \<longrightarrow> set its \<subseteq> set items)"
proof -
  from folders_loop_returns_list [OF assms(1,3,2)] obtain calls items where
    run: "list_owned_in_folders service source_email folder_ids = Some (calls, Inr items)"
    unfolding list_owned_in_folders_def by blast
  from list_owned_in_folders_runs [OF run] obtain order runs where
    d: "distinct order" and r: "set order = reachable service source_email folder_ids" and
    l: "list_all2 (folder_run service source_email) order runs" and
    c: "calls = concat (map fst runs)" and i: "items = concat (map snd runs)"
    by blast
  from runs_first_pages [OF l] c have
    fp: "filter (\<lambda>req. list_pageToken req = None) calls =
        map (\<lambda>f. folder_request (folder_query f source_email) None) order" by simp
  from i have cnt: "\<forall>x. count_list items x = sum_list (map (\<lambda>run. count_list (snd run) x) runs)"
    by (simp add: count_list_concat comp_def)
  have sub: "set its \<subseteq> set items"
    if "f \<in> reachable service source_email folder_ids" "children service source_email f its"
    for f its
  proof -
    from that(1) r have "f \<in> set order" by simp
    then obtain n where n: "n < length order" "order ! n = f" by (auto simp: in_set_conv_nth)
    with l have "folder_run service source_email f (runs ! n)" "n < length runs"
      by (auto simp: list_all2_conv_all_nth)
    with that(2) have "snd (runs ! n) = its" "runs ! n \<in> set runs"
      by (auto dest: folder_run_children children_deterministic)
    then have "its \<in> set (map snd runs)" by force
    with i show ?thesis by auto
  qed
  from run d r l c fp i cnt sub show ?thesis by blast
qed

text \<open>
  The amended claim on the folder \<open>r\<close> of \<open>diamond_service\<close>: the order of expansion is
  \<open>r\<close>, \<open>a\<close>, \<open>b\<close>.
\<close>

theorem result_list_by_reachable_folders_witness:
  "finite {''r'', ''a'', ''b''} \<and> set [''r''] \<subseteq> {''r'', ''a'', ''b''} \<and>
   listing_complete diamond_service src {''r'', ''a'', ''b''} \<and>
   list_owned_in_folders diamond_service src [''r''] =
     Some ([folder_request (folder_query ''r'' src) None,
            folder_request (folder_query ''a'' src) None,
            folder_request (folder_query ''b'' src) None],
           Inr [folder_a, folder_b, file_x, file_x]) \<and>
   reachable diamond_service src [''r''] = {''r'', ''a'', ''b''} \<and>
   (\<exists>runs. list_all2 (folder_run diamond_service src) [''r'', ''a'', ''b''] runs \<and>
      [folder_a, folder_b, file_x, file_x] = concat (map snd runs) \<and>
      count_list [folder_a, folder_b, file_x, file_x] file_x
        = sum_list (map (\<lambda>run. count_list (snd run) file_x) runs))"
proof -
  have 1: "finite {''r'', ''a'', ''b''}" by simp
  have 2: "set [''r''] \<subseteq> {''r'', ''a'', ''b''}" by simp
  have run: "list_owned_in_folders diamond_service src [''r''] =
     Some ([folder_request (folder_query ''r'' src) None,
            folder_request (folder_query ''a'' src) None,
            folder_request (folder_query ''b'' src) None],
           Inr [folder_a, folder_b, file_x, file_x])"
    using diamond_run by simp
  from result_list_by_reachable_folders [OF 1 2 diamond_complete]
  obtain calls items order runs where
    some: "list_owned_in_folders diamond_service src [''r''] = Some (calls, Inr items)" and
    r: "set order = reachable diamond_service src [''r'']" and
    l: "list_all2 (folder_run diamond_service src) order runs" and
    fp': "filter (\<lambda>req. list_pageToken req = None) calls =
        map (\<lambda>f. folder_request (folder_query f src) None) order" and
    i': "items = concat (map snd runs)" and
    cnt': "\<forall>x. count_list items x = sum_list (map (\<lambda>run. count_list (snd run) x) runs)"
    by blast
  from some run have
    calls: "calls = [folder_request (folder_query ''r'' src) None,
            folder_request (folder_query ''a'' src) None,
            folder_request (folder_query ''b'' src) None]" and
    items: "items = [folder_a, folder_b, file_x, file_x]" by simp_all
  from i' items have i: "[folder_a, folder_b, file_x, file_x] = concat (map snd runs)"
    by simp
  from cnt' items have cnt: "count_list [folder_a, folder_b, file_x, file_x] file_x
        = sum_list (map (\<lambda>run. count_list (snd run) file_x) runs)"
    by blast
  from fp' calls have fp: "filter (\<lambda>req. list_pageToken req = None)
          [folder_request (folder_query ''r'' src) None,
           folder_request (folder_query ''a'' src) None,
           folder_request (folder_query ''b'' src) None] =
        map (\<lambda>f. folder_request (folder_query f src) None) order"
    by simp
  from fp have "map (\<lambda>f. folder_request (folder_query f src) None) order =
      map (\<lambda>f. folder_request (folder_query f src) None) [''r'', ''a'', ''b'']"
    by (simp add: folder_request_def)
  then have order: "order = [''r'', ''a'', ''b'']"
    using first_page_inj by (rule map_injective)
  with r have "reachable diamond_service src [''r''] = {''r'', ''a'', ''b''}" by auto
  with 1 2 diamond_complete run l i cnt order show ?thesis by blast
qed

subsection \<open>C2: termination, each folder expanded at most once\<close>

text \<open>
  Claim C2: for every sequence of folder ids, duplicates and cyclic folder graphs included,
  the traversal returns, and no folder is expanded twice: the first page of a folder's query
  is requested at most once in the run. The remote drive is taken to be finite, which is what
  the specification's bound by the total reachable folder count presupposes: the ids lie in a
  finite set of folders whose listings end and name sub-folders of the set only.
\<close>

theorem traversal_terminates_expanding_once:
  assumes "finite U" and "set folder_ids \<subseteq> U"
    and "listing_closed service source_email U"
  shows "\<exists>calls res. list_owned_in_folders service source_email folder_ids = Some (calls, res) \<and>
           (\<forall>f. count_list calls (folder_request (folder_query f source_email) None) \<le> 1)"
proof -
  from folders_loop_terminates [OF assms(1,3,2)] obtain y where
    y: "folders_loop service source_email {} folder_ids [] [] = Some y" by blast
  from folders_loop_first_pages [OF y] have
    "\<forall>f. count_list (fst y) (folder_request (folder_query f source_email) None) \<le> 1" by auto
  with y show ?thesis by (cases y) (auto simp: list_owned_in_folders_def)
qed

text \<open>
  Claim C2 on the cyclic drive, with a duplicated id in the input.
\<close>

theorem traversal_terminates_expanding_once_witness:
  "finite {''c1'', ''c2''} \<and> set [''c1'', ''c1'', ''c2''] \<subseteq> {''c1'', ''c2''} \<and>
   listing_closed cyclic_service src {''c1'', ''c2''} \<and>
   children cyclic_service src ''c1'' [folder_c1, folder_c2] \<and>
   children cyclic_service src ''c2'' [folder_c1] \<and>
   (\<exists>calls res. list_owned_in_folders cyclic_service src [''c1'', ''c1'', ''c2''] = Some (calls, res) \<and>
      (\<forall>f. count_list calls (folder_request (folder_query f src) None) \<le> 1))"
proof -
  have 1: "finite {''c1'', ''c2''}" by simp
  have 2: "set [''c1'', ''c1'', ''c2''] \<subseteq> {''c1'', ''c2''}" by simp
  have 3: "children cyclic_service src ''c1'' [folder_c1, folder_c2]"
    by (rule childrenI [where queue = "[''c1'', ''c2'']"])
      (simp add: eval_simps cyclic_service_def folder_c1_def folder_c2_def)
  have 4: "children cyclic_service src ''c2'' [folder_c1]"
    by (rule childrenI [where queue = "[''c1'']"])
      (simp add: eval_simps cyclic_service_def folder_c1_def folder_c2_def)
  from traversal_terminates_expanding_once [OF 1 2 cyclic_closed] 1 2 3 4 cyclic_closed
  show ?thesis by blast
qed

subsection \<open>C3: a failed page request aborts the run\<close>

text \<open>
  Claim C3: when the listing ends, \<open>main\<close> returns; and if any page request of the
  listing failed, scoped or unscoped, on whatever folder and after however many pages, the
  listing function raised the error instead of returning a list, no grant was attempted, and
  the exit code is 1.
\<close>

theorem listing_failure_aborts:
  assumes "listing_ends service a"
  shows "\<exists>calls res. main_listing service a = Some (calls, res) \<and>
           ((\<exists>req\<in>set calls. isl (files_list service req)) \<longrightarrow>
              (\<exists>err. res = Inl err \<and>
                 main service a = Some \<lparr>exit_code = 1, printed = [Failed_to_list err],
                                        list_calls = calls, permission_calls = []\<rparr>))"
proof -
  from main_listing_returns [OF assms] obtain calls res where
    run: "main_listing service a = Some (calls, res)" by (cases "main_listing service a") auto
  have "\<exists>err. res = Inl err \<and>
      main service a = Some \<lparr>exit_code = 1, printed = [Failed_to_list err],
                             list_calls = calls, permission_calls = []\<rparr>"
    if "\<exists>req\<in>set calls. isl (files_list service req)"
  proof -
    from that main_listing_fails_iff [OF run] have "isl res" by simp
    then obtain err where "res = Inl err" by (cases res) simp_all
    with run main_listing_error show ?thesis by blast
  qed
  with run show ?thesis by blast
qed

text \<open>
  Claim C3 where the second page of the first folder fails.
\<close>

theorem listing_failure_aborts_witness:
  "listing_ends failing_service failing_args \<and>
   isl (files_list failing_service (folder_request (folder_query ''r'' src) (Some ''p2''))) \<and>
   main failing_service failing_args =
     Some \<lparr>exit_code = 1, printed = [Failed_to_list (HttpError ''backendError'')],
           list_calls = [folder_request (folder_query ''r'' src) None,
                         folder_request (folder_query ''r'' src) (Some ''p2'')],
           permission_calls = []\<rparr>"
proof -
  have ends: "listing_ends failing_service failing_args"
  proof (rule listing_ends_scoped [where U = "{''r'', ''a''}" and f = "''r''" and fs = "[]"])
    show "args_folder_ids failing_args = Some [''r'']" by (simp add: failing_args_def)
    show "finite {''r'', ''a''}" by simp
    show "set [''r''] \<subseteq> {''r'', ''a''}" by simp
    show "listing_closed failing_service (args_source_email failing_args) {''r'', ''a''}"
      using failing_closed by (simp add: failing_args_def)
  qed
  have bad: "isl (files_list failing_service (folder_request (folder_query ''r'' src) (Some ''p2'')))"
    by (simp add: failing_service_def folder_request_def)
  from listing_failure_aborts [OF ends] obtain calls res where
    run: "main_listing failing_service failing_args = Some (calls, res)" and
    imp: "(\<exists>req\<in>set calls. isl (files_list failing_service req)) \<longrightarrow>
      (\<exists>err. res = Inl err \<and>
         main failing_service failing_args =
           Some \<lparr>exit_code = 1, printed = [Failed_to_list err],
                 list_calls = calls, permission_calls = []\<rparr>)"
    by blast
  from run failing_run have
    calls: "calls = [folder_request (folder_query ''r'' src) None,
                     folder_request (folder_query ''r'' src) (Some ''p2'')]" and
    res: "res = Inl (HttpError ''backendError'')"
    by simp_all
  from calls bad have "\<exists>req\<in>set calls. isl (files_list failing_service req)"
    by simp
  with imp res calls have "main failing_service failing_args =
     Some \<lparr>exit_code = 1, printed = [Failed_to_list (HttpError ''backendError'')],
           list_calls = [folder_request (folder_query ''r'' src) None,
                         folder_request (folder_query ''r'' src) (Some ''p2'')],
           permission_calls = []\<rparr>"
    by auto
  with ends bad show ?thesis by (intro conjI)
qed

subsection \<open>C4: a failed transfer does not abort the run\<close>

text \<open>
  Claim C4: in a run that is not a dry run, on a nonempty list, every item is processed in
  list order: one grant call for each item, one line for each item (transferred, or failed
  with the reason), and the exit code is 0 whatever the grants answered.
\<close>

theorem transfer_failures_do_not_abort:
  assumes "main_listing service a = Some (calls, Inr items)" and "items \<noteq> []"
    and "\<not> args_dry_run a"
  shows "main service a =
     Some \<lparr>exit_code = 0,
           printed = Found (length items) # map (outcome service (args_target_email a)) items,
           list_calls = calls,
           permission_calls = map (\<lambda>item. permission (item_id item) (args_target_email a)) items\<rparr>"
  using assms by (rule main_real)

text \<open>
  Claim C4 on the items A, B, C where the grant on B fails: three grant calls, one failure.
\<close>

theorem transfer_failures_do_not_abort_witness:
  "main_listing abc_service abc_args =
     Some ([owned_request (owned_query src) None], Inr [item_A, item_B, item_C]) \<and>
   [item_A, item_B, item_C] \<noteq> [] \<and> \<not> args_dry_run abc_args \<and>
   main abc_service abc_args =
     Some \<lparr>exit_code = 0,
           printed = [Found 3, Transferred ''A'' ''a'',
                      Failed_to_transfer ''B'' ''b'' (HttpError ''forbidden''),
                      Transferred ''C'' ''c''],
           list_calls = [owned_request (owned_query src) None],
           permission_calls = [permission ''a'' tgt, permission ''b'' tgt, permission ''c'' tgt]\<rparr>"
proof -
  have run: "main_listing abc_service abc_args =
     Some ([owned_request (owned_query src) None], Inr [item_A, item_B, item_C])"
    by (subst abc_run) (simp add: abc_args_def)
  have ne: "[item_A, item_B, item_C] \<noteq> []" by simp
  have real: "\<not> args_dry_run abc_args" by (simp add: abc_args_def)
  from transfer_failures_do_not_abort [OF run ne real] run real show ?thesis
    by (simp add: outcome_def transfer_file_def abc_service_def abc_args_def
        item_A_def item_B_def item_C_def permission_def)
qed

subsection \<open>C5: a dry run grants nothing\<close>

text \<open>
  Claim C5: with \<open>dry_run\<close> set, a run whose listing returned makes no grant call at
  all, whatever the items; for a nonempty list it prints one "would transfer" line for each item.
\<close>

theorem dry_run_grants_nothing:
  assumes "main_listing service a = Some (calls, res)" and "args_dry_run a"
  shows "\<exists>run. main service a = Some run \<and> list_calls run = calls \<and> permission_calls run = [] \<and>
           (\<forall>items. res = Inr items \<longrightarrow> items \<noteq> [] \<longrightarrow>
              exit_code run = 0 \<and>
              printed run = Found (length items) #
                map (\<lambda>item. Would_transfer (item_name item) (item_id item)) items)"
proof (cases res)
  case (Inl err)
  with assms(1) main_listing_error show ?thesis by fastforce
next
  case (Inr items)
  show ?thesis
  proof (cases "items = []")
    case True
    with Inr assms(1) main_no_files show ?thesis by fastforce
  next
    case False
    with Inr assms main_dry_run [of service a calls items] show ?thesis by simp
  qed
qed

text \<open>
  Claim C5 on the items A, B, C.
\<close>

theorem dry_run_grants_nothing_witness:
  "main_listing abc_service dry_args =
     Some ([owned_request (owned_query src) None], Inr [item_A, item_B, item_C]) \<and>
   args_dry_run dry_args \<and>
   main abc_service dry_args =
     Some \<lparr>exit_code = 0,
           printed = [Found 3, Would_transfer ''A'' ''a'', Would_transfer ''B'' ''b'',
                      Would_transfer ''C'' ''c''],
           list_calls = [owned_request (owned_query src) None],
           permission_calls = []\<rparr>"
proof -
  have run: "main_listing abc_service dry_args =
     Some ([owned_request (owned_query src) None], Inr [item_A, item_B, item_C])"
    by (subst abc_run) (simp add: dry_args_def abc_args_def)
  have dry: "args_dry_run dry_args" by (simp add: dry_args_def)
  from dry_run_grants_nothing [OF run dry] obtain run' where
    r: "main abc_service dry_args = Some run'" "list_calls run' = [owned_request (owned_query src) None]"
       "permission_calls run' = []" "exit_code run' = 0"
       "printed run' = Found (length [item_A, item_B, item_C]) #
          map (\<lambda>item. Would_transfer (item_name item) (item_id item)) [item_A, item_B, item_C]"
    by auto
  then have "run' = \<lparr>exit_code = 0,
           printed = [Found 3, Would_transfer ''A'' ''a'', Would_transfer ''B'' ''b'',
                      Would_transfer ''C'' ''c''],
           list_calls = [owned_request (owned_query src) None],
           permission_calls = []\<rparr>"
    by (cases run') (simp add: item_A_def item_B_def item_C_def)
  with r(1) run dry show ?thesis by simp
qed

subsection \<open>C6: items appended, folders enqueued\<close>

text \<open>
  Claim C6: the loop over the items of a page appends every item to the Result List and
  appends to the Work Queue the ids of exactly those items whose kind is folder, in order;
  over all the pages of one folder's query, the page loop does this for every item returned.
\<close>

theorem folder_items_appended_folders_enqueued:
  "folder_items_loop items files queue =
     (files @ items, queue @ map item_id (filter (\<lambda>item. mimeType item = folder_mime) items)) \<and>
   (paging service (folder_request query) None reqs (Inr its) \<longrightarrow>
      folder_pages_loop service query None files queue calls =
        Some (calls @ reqs,
              Inr (files @ its,
                   queue @ map item_id (filter (\<lambda>item. mimeType item = folder_mime) its))))"
  using folder_pages_loop_paging [of service query None reqs "Inr its" files queue calls]
  by (simp add: folder_items_loop_append sub_folders_def)

text \<open>
  Claim C6 on a listing of two pages.
\<close>

theorem folder_items_appended_folders_enqueued_witness:
  "paging paged_service (folder_request (folder_query ''r'' src)) None
     [folder_request (folder_query ''r'' src) None,
      folder_request (folder_query ''r'' src) (Some ''p2'')]
     (Inr [folder_a, file_x, folder_b]) \<and>
   folder_items_loop [folder_a, file_x] [file_x] [''q''] =
     ([file_x, folder_a, file_x], [''q'', ''a'']) \<and>
   folder_pages_loop paged_service (folder_query ''r'' src) None [file_x] [''q''] [] =
     Some ([folder_request (folder_query ''r'' src) None,
            folder_request (folder_query ''r'' src) (Some ''p2'')],
           Inr ([file_x, folder_a, file_x, folder_b], [''q'', ''a'', ''b'']))"
proof -
  let ?mk = "folder_request (folder_query ''r'' src)"
  have 2: "paging paged_service ?mk (Some ''p2'') [?mk (Some ''p2'')] (Inr [folder_b])"
    using paging_last [of paged_service ?mk "Some ''p2''"
        "\<lparr>resp_files = [folder_b], nextPageToken = None\<rparr>"]
    by (simp add: paged_service_def folder_request_def page_def not_token_def)
  have 1: "paging paged_service ?mk None [?mk None, ?mk (Some ''p2'')]
      (Inr [folder_a, file_x, folder_b])"
    using paging_next [of paged_service ?mk None
        "\<lparr>resp_files = [folder_a, file_x], nextPageToken = Some ''p2''\<rparr>"
        "[?mk (Some ''p2'')]" "[folder_b]"] 2
    by (simp add: paged_service_def folder_request_def page_def not_token_def)
  from folder_items_appended_folders_enqueued
    [of "[folder_a, file_x]" "[file_x]" "[''q'']" paged_service "folder_query ''r'' src"
      "[?mk None, ?mk (Some ''p2'')]" "[folder_a, file_x, folder_b]" "[]"] 1
  show ?thesis
    by (simp add: folder_a_def folder_b_def file_x_def folder_mime_def)
qed

subsection \<open>C7: no folder ids\<close>

text \<open>
  Claim C7: on the empty sequence of folder ids, \<open>list_owned_in_folders\<close> returns the empty
  Result List and has made no listing request.
\<close>

theorem empty_folder_ids_no_calls:
  "list_owned_in_folders service source_email [] = Some ([], Inr [])"
  by (simp add: list_owned_in_folders_def folders_loop_Nil)

subsection \<open>C8: nothing to transfer\<close>

text \<open>
  Claim C8: when the listing returns no item, \<open>main\<close> prints that no files matched,
  makes no grant call and exits with code 0.
\<close>

theorem no_files_exits_zero:
  assumes "main_listing service a = Some (calls, Inr [])"
  shows "main service a = Some \<lparr>exit_code = 0, printed = [No_files],
                                  list_calls = calls, permission_calls = []\<rparr>"
  using assms by (rule main_no_files)

text \<open>
  Claim C8 on the empty drive.
\<close>

theorem no_files_exits_zero_witness:
  "main_listing empty_service abc_args = Some ([owned_request (owned_query src) None], Inr []) \<and>
   main empty_service abc_args =
     Some \<lparr>exit_code = 0, printed = [No_files],
           list_calls = [owned_request (owned_query src) None], permission_calls = []\<rparr>"
proof -
  have run: "main_listing empty_service abc_args =
      Some ([owned_request (owned_query src) None], Inr [])"
    by (simp add: main_listing_def abc_args_def eval_simps empty_service_def)
  from no_files_exits_zero [OF run] run show ?thesis by simp
qed

subsection \<open>C9: the given folders are expanded, not listed\<close>

text \<open>
  Claim C9: the Result List is made of the items returned by the requests of the run and of
  nothing else, and every request is the query of some folder's children. So a given folder id
  is in the list only where some queried folder lists an item with that id.
\<close>

theorem roots_only_expanded:
  assumes "list_owned_in_folders service source_email folder_ids = Some (calls, Inr items)"
  shows "items = concat (map (returned service) calls) \<and>
         (\<forall>req\<in>set calls. \<exists>g tok. req = folder_request (folder_query g source_email) tok) \<and>
         (\<forall>f\<in>set folder_ids. \<forall>item\<in>set items. item_id item = f \<longrightarrow>
            (\<exists>req\<in>set calls. item \<in> set (returned service req)))"
proof -
  from assms have "folders_loop service source_email {} folder_ids [] [] = Some (calls, Inr items)"
    by (simp add: list_owned_in_folders_def)
  from folders_loop_calls [OF this] have
    1: "items = concat (map (returned service) calls)" and
    2: "\<forall>req\<in>set calls. \<exists>g tok. req = folder_request (folder_query g source_email) tok"
    by auto
  from 1 have "\<forall>item\<in>set items. \<exists>req\<in>set calls. item \<in> set (returned service req)"
    by auto
  with 1 2 show ?thesis by blast
qed

text \<open>
  Claim C9 on the folder \<open>r\<close> of \<open>diamond_service\<close>: \<open>r\<close> itself is not in the list.
\<close>

theorem roots_only_expanded_witness:
  "list_owned_in_folders diamond_service src [''r''] =
     Some ([folder_request (folder_query ''r'' src) None,
            folder_request (folder_query ''a'' src) None,
            folder_request (folder_query ''b'' src) None],
           Inr [folder_a, folder_b, file_x, file_x]) \<and>
   [folder_a, folder_b, file_x, file_x] =
     concat (map (returned diamond_service)
       [folder_request (folder_query ''r'' src) None,
        folder_request (folder_query ''a'' src) None,
        folder_request (folder_query ''b'' src) None]) \<and>
   ''r'' \<notin> item_id ` set [folder_a, folder_b, file_x, file_x]"
proof -
  have run: "list_owned_in_folders diamond_service src [''r''] =
     Some ([folder_request (folder_query ''r'' src) None,
            folder_request (folder_query ''a'' src) None,
            folder_request (folder_query ''b'' src) None],
           Inr [folder_a, folder_b, file_x, file_x])"
    using diamond_run by simp
  have "''r'' \<notin> item_id ` set [folder_a, folder_b, file_x, file_x]"
    by (simp add: folder_a_def folder_b_def file_x_def)
  with roots_only_expanded [OF run] run show ?thesis by blast
qed

subsection \<open>C10: an item is listed once for each parent\<close>

text \<open>
  Claim C10: in a returned Result List the visited folders are the reachable ones (those
  whose first page the run requested), and an item occurs in the list once for each
  occurrence in the listings the service gives for them: at least as often as any distinct
  visited parents list it together, and exactly as often as all visited folders do. So an item
  with two visited parents occurs twice. In a real run every entry of the list, repeated
  entries included, gets its own grant request, and the line printed for it is what the
  service answers to that request.
\<close>

theorem items_repeated_per_parent:
  assumes "list_owned_in_folders service source_email folder_ids = Some (calls, Inr items)"
  shows
    "(\<forall>p. folder_request (folder_query p source_email) None \<in> set calls
         \<longleftrightarrow> p \<in> reachable service source_email folder_ids) \<and>
     (\<forall>ps chs x. distinct ps \<and> set ps \<subseteq> reachable service source_email folder_ids \<and>
          list_all2 (children service source_email) ps chs
        \<longrightarrow> sum_list (map (\<lambda>its. count_list its x) chs) \<le> count_list items x) \<and>
     (\<forall>ps chs x. distinct ps \<and> set ps = reachable service source_email folder_ids \<and>
          list_all2 (children service source_email) ps chs
        \<longrightarrow> count_list items x = sum_list (map (\<lambda>its. count_list its x) chs)) \<and>
     (\<exists>ps chs. distinct ps \<and> set ps = reachable service source_email folder_ids \<and>
          list_all2 (children service source_email) ps chs) \<and>
     (\<forall>a. main_listing service a = Some (calls, Inr items) \<and> items \<noteq> [] \<and> \<not> args_dry_run a
        \<longrightarrow> main service a =
          Some \<lparr>exit_code = 0,
            printed = Found (length items) #
              map (\<lambda>item.
                case permissions_create service
                       \<lparr>fileId = item_id item, body_type = ''user'', body_role = ''owner'',
                        body_emailAddress = args_target_email a, transferOwnership = True,
                        supportsAllDrives = True, sendNotificationEmail = False\<rparr> of
                  Inl err \<Rightarrow> Failed_to_transfer (item_name item) (item_id item) err
                | Inr u \<Rightarrow> Transferred (item_name item) (item_id item)) items,
            list_calls = calls,
            permission_calls =
              map (\<lambda>item. \<lparr>fileId = item_id item, body_type = ''user'', body_role = ''owner'',
                        body_emailAddress = args_target_email a, transferOwnership = True,
                        supportsAllDrives = True, sendNotificationEmail = False\<rparr>) items\<rparr>)"
proof (intro conjI)
  show "\<forall>p. folder_request (folder_query p source_email) None \<in> set calls
         \<longleftrightarrow> p \<in> reachable service source_email folder_ids"
    using expanded_iff_reachable [OF assms] by blast
  show "\<forall>ps chs x. distinct ps \<and> set ps \<subseteq> reachable service source_email folder_ids \<and>
          list_all2 (children service source_email) ps chs
        \<longrightarrow> sum_list (map (\<lambda>its. count_list its x) chs) \<le> count_list items x"
    using children_counts(1) [OF assms] by blast
  show "\<forall>ps chs x. distinct ps \<and> set ps = reachable service source_email folder_ids \<and>
          list_all2 (children service source_email) ps chs
        \<longrightarrow> count_list items x = sum_list (map (\<lambda>its. count_list its x) chs)"
    using children_counts(2) [OF assms] by (metis subset_refl)
  show "\<exists>ps chs. distinct ps \<and> set ps = reachable service source_email folder_ids \<and>
          list_all2 (children service source_email) ps chs"
    using assms by (rule reachable_listings)
  show "\<forall>a. main_listing service a = Some (calls, Inr items) \<and> items \<noteq> [] \<and> \<not> args_dry_run a
        \<longrightarrow> main service a =
          Some \<lparr>exit_code = 0,
            printed = Found (length items) #
              map (\<lambda>item.
                case permissions_create service
                       \<lparr>fileId = item_id item, body_type = ''user'', body_role = ''owner'',
                        body_emailAddress = args_target_email a, transferOwnership = True,
                        supportsAllDrives = True, sendNotificationEmail = False\<rparr> of
                  Inl err \<Rightarrow> Failed_to_transfer (item_name item) (item_id item) err
                | Inr u \<Rightarrow> Transferred (item_name item) (item_id item)) items,
            list_calls = calls,
            permission_calls =
              map (\<lambda>item. \<lparr>fileId = item_id item, body_type = ''user'', body_role = ''owner'',
                        body_emailAddress = args_target_email a, transferOwnership = True,
                        supportsAllDrives = True, sendNotificationEmail = False\<rparr>) items\<rparr>"
    using main_real_service by blast
qed

text \<open>
  Claim C10 on \<open>diamond_service\<close>: the file \<open>x\<close> has the visited parents \<open>a\<close> and \<open>b\<close>,
  occurs twice, and is refused twice.
\<close>

theorem items_repeated_per_parent_witness:
  "list_owned_in_folders diamond_service src [''r''] =
     Some ([folder_request (folder_query ''r'' src) None,
            folder_request (folder_query ''a'' src) None,
            folder_request (folder_query ''b'' src) None],
           Inr [folder_a, folder_b, file_x, file_x]) \<and>
   distinct [''a'', ''b''] \<and> set [''a'', ''b''] \<subseteq> reachable diamond_service src [''r''] \<and>
   list_all2 (children diamond_service src) [''a'', ''b''] [[file_x], [file_x]] \<and>
   sum_list (map (\<lambda>its. count_list its file_x) [[file_x], [file_x]]) = 2 \<and>
   count_list [folder_a, folder_b, file_x, file_x] file_x = 2 \<and>
   \<not> args_dry_run diamond_args \<and>
   main diamond_service diamond_args =
     Some \<lparr>exit_code = 0,
       printed = [Found 4, Transferred ''A'' ''a'', Transferred ''B'' ''b'',
                  Failed_to_transfer ''X'' ''x'' (HttpError ''forbidden''),
                  Failed_to_transfer ''X'' ''x'' (HttpError ''forbidden'')],
       list_calls = [folder_request (folder_query ''r'' src) None,
                     folder_request (folder_query ''a'' src) None,
                     folder_request (folder_query ''b'' src) None],
       permission_calls = [permission ''a'' tgt, permission ''b'' tgt,
                           permission ''x'' tgt, permission ''x'' tgt]\<rparr>"
proof -
  let ?calls = "[folder_request (folder_query ''r'' src) None,
            folder_request (folder_query ''a'' src) None,
            folder_request (folder_query ''b'' src) None]"
  let ?items = "[folder_a, folder_b, file_x, file_x]"
  have run: "list_owned_in_folders diamond_service src [''r''] = Some (?calls, Inr ?items)"
    using diamond_run by simp
  note facts = items_repeated_per_parent [OF run]
  from facts have exp: "\<forall>p. folder_request (folder_query p src) None \<in> set ?calls
         \<longleftrightarrow> p \<in> reachable diamond_service src [''r'']" by blast
  from exp [rule_format, of "''a''"] exp [rule_format, of "''b''"]
  have reach: "set [''a'', ''b''] \<subseteq> reachable diamond_service src [''r'']"
    by simp
  have ch: "list_all2 (children diamond_service src) [''a'', ''b''] [[file_x], [file_x]]"
    using diamond_children by simp
  have two: "count_list ?items file_x = 2"
    by (simp add: folder_a_def folder_b_def file_x_def folder_mime_def)
  from facts have le: "\<forall>ps chs x. distinct ps \<and> set ps \<subseteq> reachable diamond_service src [''r''] \<and>
          list_all2 (children diamond_service src) ps chs
        \<longrightarrow> sum_list (map (\<lambda>its. count_list its x) chs) \<le> count_list ?items x" by blast
  have "distinct [''a'', ''b'']" by simp
  with le [rule_format, of "[''a'', ''b'']" "[[file_x], [file_x]]" file_x] reach ch
  have "sum_list (map (\<lambda>its. count_list its file_x) [[file_x], [file_x]])
      \<le> count_list ?items file_x"
    by blast
  have sum: "sum_list (map (\<lambda>its. count_list its file_x) [[file_x], [file_x]]) = 2" by simp
  have real: "\<not> args_dry_run diamond_args" by (simp add: diamond_args_def)
  have listing: "main_listing diamond_service diamond_args = Some (?calls, Inr ?items)"
    using run by (simp add: main_listing_def diamond_args_def)
  from facts have "\<forall>a. main_listing diamond_service a = Some (?calls, Inr ?items) \<and> ?items \<noteq> []
        \<and> \<not> args_dry_run a
        \<longrightarrow> main diamond_service a =
          Some \<lparr>exit_code = 0,
            printed = Found (length ?items) #
              map (\<lambda>item.
                case permissions_create diamond_service
                       \<lparr>fileId = item_id item, body_type = ''user'', body_role = ''owner'',
                        body_emailAddress = args_target_email a, transferOwnership = True,
                        supportsAllDrives = True, sendNotificationEmail = False\<rparr> of
                  Inl err \<Rightarrow> Failed_to_transfer (item_name item) (item_id item) err
                | Inr u \<Rightarrow> Transferred (item_name item) (item_id item)) ?items,
            list_calls = ?calls,
            permission_calls =
              map (\<lambda>item. \<lparr>fileId = item_id item, body_type = ''user'', body_role = ''owner'',
                        body_emailAddress = args_target_email a, transferOwnership = True,
                        supportsAllDrives = True, sendNotificationEmail = False\<rparr>) ?items\<rparr>"
    by blast
  with listing real have main: "main diamond_service diamond_args =
     Some \<lparr>exit_code = 0,
       printed = [Found 4, Transferred ''A'' ''a'', Transferred ''B'' ''b'',
                  Failed_to_transfer ''X'' ''x'' (HttpError ''forbidden''),
                  Failed_to_transfer ''X'' ''x'' (HttpError ''forbidden'')],
       list_calls = ?calls,
       permission_calls = [permission ''a'' tgt, permission ''b'' tgt,
                           permission ''x'' tgt, permission ''x'' tgt]\<rparr>"
    by (simp add: diamond_service_def diamond_args_def folder_a_def folder_b_def file_x_def
        permission_def)
  from run reach ch sum two real main show ?thesis by simp
qed

end
